theory Spec2Isabelle
  imports Complex_Main "HOL-Library.Sublist"
begin

section \<open>Python string primitives used by the pipeline\<close>

text \<open>
  Python \<open>str\<close> values are modelled as \<^typ>\<open>string\<close>, one \<^typ>\<open>char\<close> per character,
  so \<open>len\<close> is \<^const>\<open>length\<close>. Case mapping is the ASCII one: the markers the code
  searches for are pure ASCII. \<open>s.startswith(p)\<close> is \<open>prefix p s\<close> and
  \<open>p in s\<close> is \<open>sublist p s\<close>.
\<close>

definition NL :: char where
  "NL = CHR 0x0A"

text \<open>
  \<open>c.isspace()\<close>, the characters that \<open>str.strip()\<close> removes, for the code points
  below 256: tab to carriage return, the four separators, space, next line (U+0085) and
  no-break space (U+00A0).
\<close>

definition py_isspace :: "char \<Rightarrow> bool" where
  "py_isspace c =
     (let n = (of_char c :: nat)
      in (9 \<le> n \<and> n \<le> 13) \<or> (28 \<le> n \<and> n \<le> 32) \<or> n = 133 \<or> n = 160)"

definition lstrip :: "string \<Rightarrow> string" where
  "lstrip s = dropWhile py_isspace s"

definition rstrip :: "string \<Rightarrow> string" where
  "rstrip s = rev (dropWhile py_isspace (rev s))"

definition strip :: "string \<Rightarrow> string" where
  "strip s = rstrip (lstrip s)"

definition ascii_uppercase :: string where
  "ascii_uppercase = ''ABCDEFGHIJKLMNOPQRSTUVWXYZ''"

definition ascii_lowercase :: string where
  "ascii_lowercase = ''abcdefghijklmnopqrstuvwxyz''"

definition lower_char :: "char \<Rightarrow> char" where
  "lower_char c =
     (case map_of (zip ascii_uppercase ascii_lowercase) c of None \<Rightarrow> c | Some l \<Rightarrow> l)"

definition upper_char :: "char \<Rightarrow> char" where
  "upper_char c =
     (case map_of (zip ascii_lowercase ascii_uppercase) c of None \<Rightarrow> c | Some u \<Rightarrow> u)"

definition lower :: "string \<Rightarrow> string" where
  "lower s = map lower_char s"

definition upper :: "string \<Rightarrow> string" where
  "upper s = map upper_char s"

definition is_cased :: "char \<Rightarrow> bool" where
  "is_cased c = (c \<in> set ascii_uppercase \<or> c \<in> set ascii_lowercase)"

text \<open>\<open>s.title()\<close>: a letter that follows a letter is lowered, any other letter is raised.\<close>

fun title_from :: "bool \<Rightarrow> string \<Rightarrow> string" where
  "title_from prev [] = []"
| "title_from prev (c # cs) =
     (if prev then lower_char c else upper_char c) # title_from (is_cased c) cs"

definition title :: "string \<Rightarrow> string" where
  "title s = title_from False s"

text \<open>\<open>sep.join(parts)\<close>.\<close>

fun join :: "string \<Rightarrow> string list \<Rightarrow> string" where
  "join sep [] = []"
| "join sep [x] = x"
| "join sep (x # y # ys) = x @ sep @ join sep (y # ys)"

text \<open>\<open>s.split(c)\<close> for a one-character separator: never empty, keeps empty fields.\<close>

fun split_char :: "char \<Rightarrow> string \<Rightarrow> string list" where
  "split_char c [] = [[]]"
| "split_char c (x # xs) =
     (if x = c then [] # split_char c xs
      else (case split_char c xs of
              [] \<Rightarrow> [[x]]
            | y # ys \<Rightarrow> (x # y) # ys))"

text \<open>
  \<open>s.split(sep, 1)\<close> for a non-empty separator that occurs in \<open>s\<close>: the text before the
  first occurrence and the text after it; \<open>None\<close> when \<open>sep\<close> does not occur (Python then
  returns the one-element list \<open>[s]\<close>).
\<close>

fun split_once :: "string \<Rightarrow> string \<Rightarrow> (string \<times> string) option" where
  "split_once sep [] = (if sep = [] then Some ([], []) else None)"
| "split_once sep (c # cs) =
     (if prefix sep (c # cs) then Some ([], drop (length sep) (c # cs))
      else (case split_once sep cs of
              None \<Rightarrow> None
            | Some (before, after) \<Rightarrow> Some (c # before, after)))"

section \<open>Configuration (\<open>app/config.py\<close>)\<close>

text \<open>
  Similarity scores and the score threshold are Python floats; they are modelled by the
  real numbers they denote (no NaN). \<open>max_context_chars\<close> is a Python \<open>int\<close>.
\<close>

record settings =
  top_k :: int
  score_threshold :: real
  max_context_chars :: int

definition default_settings :: settings where
  "default_settings = \<lparr>top_k = 3, score_threshold = 75 / 100, max_context_chars = 1200\<rparr>"

section \<open>Context assembly (\<open>RAG.build_context\<close> in \<open>app/services/rag.py\<close>)\<close>

datatype error =
    VectorStoreException
  | LLMServiceException string
  | SessionException string
  | MultipleResultsFound
  | IntegrityError
  | HTTPException nat string
  | EncodeError

type_synonym metadata = "string \<rightharpoonup> string"

type_synonym match = "real \<times> metadata"

text \<open>\<open>meta.get(key, '')\<close>.\<close>

definition meta_get :: "metadata \<Rightarrow> string \<Rightarrow> string" where
  "meta_get meta key = (case meta key of None \<Rightarrow> [] | Some v \<Rightarrow> v)"

text \<open>The block \<open>f"Q: {meta.get('question', '')}\nA: {meta.get('answer', '')}\n"\<close>.\<close>

definition format_qa :: "metadata \<Rightarrow> string" where
  "format_qa meta =
     ''Q: '' @ meta_get meta ''question'' @ [NL] @ ''A: '' @ meta_get meta ''answer'' @ [NL]"

text \<open>
  The \<open>for score, meta in matches\<close> loop, with its two accumulators \<open>context_parts\<close> and
  \<open>chars\<close>; \<open>break\<close> returns the parts collected so far.
\<close>

fun collect_parts :: "int \<Rightarrow> match list \<Rightarrow> string list \<Rightarrow> nat \<Rightarrow> string list" where
  "collect_parts budget [] context_parts chars = context_parts"
| "collect_parts budget ((score, meta) # matches) context_parts chars =
     (let qa = format_qa meta in
      if int (chars + length qa) > budget then context_parts
      else collect_parts budget matches (context_parts @ [qa]) (chars + length qa))"

text \<open>
  \<open>build_context\<close> after \<open>retrieve\<close> has returned \<open>matches\<close>: the triple
  \<open>(context, should_escalate, best_score)\<close>.
\<close>

definition build_context_of :: "settings \<Rightarrow> match list \<Rightarrow> string \<times> bool \<times> real" where
  "build_context_of cfg matches =
     (case matches of
        [] \<Rightarrow> ([], True, 0)
      | (best_score, _) # _ \<Rightarrow>
          (join [NL] (collect_parts (max_context_chars cfg) matches [] 0),
           best_score < score_threshold cfg,
           best_score))"

text \<open>The value of the running count \<open>chars\<close> once the blocks of \<open>ms\<close> are appended.\<close>

definition blocks_len :: "match list \<Rightarrow> nat" where
  "blocks_len ms = sum_list (map (\<lambda>m. length (format_qa (snd m))) ms)"

section \<open>The answer pipeline (\<open>RAG\<close> in \<open>app/services/rag.py\<close>)\<close>

text \<open>
  The collaborators are parameters. A prompt is kept as its template
  (\<open>PromptType\<close>) with the values of the template's variables, in the order of the
  template's \<open>variables\<close> list; the rendered text is a function of these, so a model that
  reads the rendered text is a function of the prompt. \<open>generate\<close> is
  \<open>self.model.generate_content(p).text\<close>, and \<open>search\<close> is \<open>emb.embed_text\<close> followed by
  \<open>store.query\<close>; \<open>None\<close> stands for a raised exception.
\<close>

datatype prompt =
    FAQ_RESPONSE string string string
  | GENERAL_RESPONSE string string
  | CONVERSATION_SUMMARY string
  | ACTION_SUGGESTIONS string string string string
  | TOPIC_ANALYSIS string

record services =
  search :: "string \<Rightarrow> int \<Rightarrow> match list option"
  generate :: "prompt \<Rightarrow> string option"

text \<open>A history entry \<open>{"role": r, "content": c}\<close> is the pair \<open>(r, c)\<close>.\<close>

type_synonym turn = "string \<times> string"

text \<open>
  What \<open>answer\<close> returns: \<open>(answer, should_escalate, score, response_type)\<close>. Every
  pipeline function below also returns the prompts it sent to the model, in order.
\<close>

type_synonym reply = "string \<times> bool \<times> real \<times> string"

definition retrieve :: "services \<Rightarrow> settings \<Rightarrow> string \<Rightarrow> error + match list" where
  "retrieve svc cfg query =
     (case search svc query (top_k cfg) of
        None \<Rightarrow> Inl VectorStoreException
      | Some matches \<Rightarrow> Inr matches)"

definition build_context ::
  "services \<Rightarrow> settings \<Rightarrow> string \<Rightarrow> error + (string \<times> bool \<times> real)" where
  "build_context svc cfg query =
     (case retrieve svc cfg query of
        Inl e \<Rightarrow> Inl e
      | Inr matches \<Rightarrow> Inr (build_context_of cfg matches))"

text \<open>\<open>"\n".join([f"{m['role']}: {m['content']}" for m in history])\<close>.\<close>

definition history_text :: "turn list \<Rightarrow> string" where
  "history_text h = join [NL] (map (\<lambda>(r, c). r @ '': '' @ c) h)"

text \<open>\<open>h[-n:] if len(h) > n else h\<close>.\<close>

definition last_turns :: "nat \<Rightarrow> turn list \<Rightarrow> turn list" where
  "last_turns n h = (if length h > n then drop (length h - n) h else h)"

definition apology :: string where
  "apology =
     ''I apologize, but I'' @ [CHR 0x27] @ ''m unable to provide a specific answer to your question. '' @
     ''Let me connect you with a human agent who can better assist you.''"

definition get_general_answer ::
  "services \<Rightarrow> string \<Rightarrow> turn list \<Rightarrow> prompt list \<times> (error + (string \<times> bool))" where
  "get_general_answer svc query chat_history =
     (let full_prompt = GENERAL_RESPONSE (history_text chat_history) query in
      case generate svc full_prompt of
        None \<Rightarrow> ([full_prompt], Inl (LLMServiceException ''Failed to generate general response''))
      | Some text \<Rightarrow>
          (let answer = strip text in
           if sublist ''ESCALATE_TO_HUMAN'' (upper answer) \<or> sublist ''escalate'' (lower answer)
           then ([full_prompt], Inr (answer, True))
           else ([full_prompt], Inr (answer, False))))"

text \<open>
  The expression \<open>context.split("A:", 1)[1].strip().split("\n")[0] if "A:" in context else None\<close>;
  an index error inside the \<open>try\<close> is swallowed by \<open>except Exception: pass\<close>, which \<open>None\<close>
  stands for as well.
\<close>

definition best_answer_of :: "string \<Rightarrow> string option" where
  "best_answer_of context =
     (if sublist ''A:'' context then
        (case split_once ''A:'' context of
           None \<Rightarrow> None
         | Some (_, after) \<Rightarrow>
             (case split_char NL (strip after) of
                [] \<Rightarrow> None
              | first # _ \<Rightarrow> Some first))
      else None)"

text \<open>\<open>answer\<close> from the point where \<open>build_context\<close> has returned.\<close>

definition answer_with ::
  "services \<Rightarrow> string \<Rightarrow> turn list \<Rightarrow> string \<times> bool \<times> real \<Rightarrow> prompt list \<times> (error + reply)" where
  "answer_with svc query chat_history ctx =
     (case ctx of (context, should_escalate, score) \<Rightarrow>
      let trimmed_history = last_turns 6 chat_history;
          faq_branch =
            (let full_prompt = FAQ_RESPONSE context (history_text trimmed_history) query in
             case generate svc full_prompt of
               None \<Rightarrow> ([full_prompt], Inl (LLMServiceException ''Failed to generate FAQ response''))
             | Some text \<Rightarrow> ([full_prompt], Inr (strip text, False, score, ''faq'')))
      in
      if context \<noteq> [] \<and> \<not> should_escalate then
        (if score \<ge> 9 / 10 then
           (case best_answer_of context of
              None \<Rightarrow> faq_branch
            | Some best_answer \<Rightarrow>
                if best_answer \<noteq> [] then ([], Inr (best_answer, False, score, ''faq''))
                else faq_branch)
         else faq_branch)
      else
        (case get_general_answer svc query trimmed_history of
           (calls, Inl e) \<Rightarrow> (calls, Inl e)
         | (calls, Inr (general_answer, general_escalate)) \<Rightarrow>
             if \<not> general_escalate then (calls, Inr (general_answer, False, score, ''general''))
             else (calls, Inr (apology, True, score, ''escalated''))))"

definition answer ::
  "services \<Rightarrow> settings \<Rightarrow> string \<Rightarrow> turn list \<Rightarrow> prompt list \<times> (error + reply)" where
  "answer svc cfg query chat_history =
     (case build_context svc cfg query of
        Inl e \<Rightarrow> ([], Inl e)
      | Inr ctx \<Rightarrow> answer_with svc query chat_history ctx)"

subsection \<open>Action suggestions (\<open>RAG.suggest_next_actions\<close>)\<close>

definition filler_openers :: "string list" where
  "filler_openers = [''here'', ''you can'', ''please'', ''thank'']"

definition fallback_actions :: "string list" where
  "fallback_actions =
     [''Can you provide more details about your specific situation?'',
      ''Would you like me to walk you through the steps?'',
      ''Do you need help with anything else related to this?'',
      ''Is there a specific part you'' @ [CHR 0x27] @ ''re having trouble with?'']"

text \<open>The test of line 180: \<open>len(action) > 10 and not action.lower().startswith((...))\<close>.\<close>

definition keep_action :: "string \<Rightarrow> bool" where
  "keep_action action =
     (length action > 10 \<and> \<not> list_ex (\<lambda>p. prefix p (lower action)) filler_openers)"

definition suggest_next_actions ::
  "services \<Rightarrow> string \<Rightarrow> turn list \<Rightarrow> string \<Rightarrow> prompt list \<times> string list" where
  "suggest_next_actions svc query chat_history context =
     (let clipped_history = last_turns 5 chat_history;
          conversation_text = join [NL] (map (\<lambda>(r, c). title r @ '': '' @ c) clipped_history);
          topic_prompt = TOPIC_ANALYSIS query;
          main_topic = (case generate svc topic_prompt of
                          None \<Rightarrow> ''general support''
                        | Some text \<Rightarrow> lower (strip text));
          actions_prompt = ACTION_SUGGESTIONS query main_topic conversation_text context
      in
      case generate svc actions_prompt of
        None \<Rightarrow> ([topic_prompt, actions_prompt], fallback_actions)
      | Some text \<Rightarrow>
          (let actions = map strip (filter (\<lambda>action. strip action \<noteq> [])
                                           (split_char NL (strip text)));
               filtered_actions = filter keep_action actions
           in ([topic_prompt, actions_prompt], take 5 filtered_actions)))"

section \<open>Sessions and messages (\<open>app/db/models.py\<close>, \<open>app/services/session_manager.py\<close>)\<close>

text \<open>
  A \<open>datetime\<close> is a number of microseconds, a \<open>timedelta\<close> likewise. The two tables are
  lists of rows. \<open>clk k\<close> is what the \<open>k\<close>-th call of \<open>datetime.utcnow()\<close> made by an
  operation returns (counted from 0), and \<open>uuid4\<close> is the identifier that the column default
  \<open>str(uuid.uuid4())\<close> draws for the row the operation inserts. Every operation takes the
  store and returns its result with the store it leaves; an operation that raises leaves
  the store as it found it.
\<close>

type_synonym datetime = int

record chat_session =
  s_id :: string
  s_created_at :: datetime
  s_updated_at :: datetime
  expires_at :: "datetime option"
  is_active :: bool
  message_count :: int
  last_activity :: datetime

record chat_message =
  m_id :: string
  m_session_id :: string
  m_role :: string
  m_content :: string
  m_created_at :: datetime

record store =
  sessions :: "chat_session list"
  messages :: "chat_message list"

text \<open>\<open>timedelta(hours=24)\<close>.\<close>

definition session_timeout :: int where
  "session_timeout = 24 * 3600 * 1000000"

text \<open>\<open>result.scalar_one_or_none()\<close> on the rows a query selects.\<close>

definition scalar_one_or_none :: "'a list \<Rightarrow> error + 'a option" where
  "scalar_one_or_none rows =
     (case rows of
        [] \<Rightarrow> Inr None
      | [r] \<Rightarrow> Inr (Some r)
      | _ # _ # _ \<Rightarrow> Inl MultipleResultsFound)"

text \<open>The \<open>UPDATE\<close> that \<open>flush\<close> issues for a changed session object, by primary key.\<close>

definition update_row :: "chat_session \<Rightarrow> chat_session list \<Rightarrow> chat_session list" where
  "update_row session rows = map (\<lambda>r. if s_id r = s_id session then session else r) rows"

text \<open>The SQL comparisons on the nullable column \<open>expires_at\<close>: \<open>NULL\<close> is never selected.\<close>

definition expires_after :: "chat_session \<Rightarrow> datetime \<Rightarrow> bool" where
  "expires_after s now = (case expires_at s of None \<Rightarrow> False | Some e \<Rightarrow> e > now)"

definition expires_before :: "chat_session \<Rightarrow> datetime \<Rightarrow> bool" where
  "expires_before s now = (case expires_at s of None \<Rightarrow> False | Some e \<Rightarrow> e < now)"

definition update_session_activity ::
  "(nat \<Rightarrow> datetime) \<Rightarrow> store \<Rightarrow> chat_session \<Rightarrow> chat_session \<times> store" where
  "update_session_activity clk db session =
     (let session' = session\<lparr>last_activity := clk 0,
                              expires_at := Some (clk 1 + session_timeout),
                              s_updated_at := clk 2\<rparr>
      in (session', db\<lparr>sessions := update_row session' (sessions db)\<rparr>))"

text \<open>
  Lines 45 to 52 of \<open>get_or_create_session\<close>: the new row, whose remaining columns take
  their defaults when \<open>flush\<close> inserts it; a primary key that is already there is refused.
\<close>

definition insert_new_session ::
  "(nat \<Rightarrow> datetime) \<Rightarrow> string \<Rightarrow> store \<Rightarrow> (error + chat_session) \<times> store" where
  "insert_new_session clk uuid4 db =
     (let session = \<lparr>s_id = uuid4,
                      s_created_at = clk 1,
                      s_updated_at = clk 2,
                      expires_at = Some (clk 0 + session_timeout),
                      is_active = True,
                      message_count = 0,
                      last_activity = clk 3\<rparr>
      in if uuid4 \<in> set (map s_id (sessions db)) then (Inl IntegrityError, db)
         else (Inr session, db\<lparr>sessions := sessions db @ [session]\<rparr>))"

definition get_or_create_session ::
  "(nat \<Rightarrow> datetime) \<Rightarrow> string \<Rightarrow> store \<Rightarrow> string option \<Rightarrow> (error + chat_session) \<times> store" where
  "get_or_create_session clk uuid4 db session_id =
     (case session_id of
        None \<Rightarrow> insert_new_session clk uuid4 db
      | Some sid \<Rightarrow>
          if sid = [] then insert_new_session clk uuid4 db
          else
            (case scalar_one_or_none
                    (filter (\<lambda>s. s_id s = sid \<and> is_active s \<and> expires_after s (clk 0))
                            (sessions db)) of
               Inl e \<Rightarrow> (Inl e, db)
             | Inr (Some session) \<Rightarrow>
                 (case update_session_activity (\<lambda>k. clk (Suc k)) db session of
                    (session', db') \<Rightarrow> (Inr session', db'))
             | Inr None \<Rightarrow> insert_new_session (\<lambda>k. clk (Suc k)) uuid4 db))"

definition add_message ::
  "(nat \<Rightarrow> datetime) \<Rightarrow> string \<Rightarrow> store \<Rightarrow> string \<Rightarrow> string \<Rightarrow> string \<Rightarrow>
     (error + chat_message) \<times> store" where
  "add_message clk uuid4 db session_id role content =
     (case scalar_one_or_none
             (filter (\<lambda>s. s_id s = session_id \<and> is_active s) (sessions db)) of
        Inl e \<Rightarrow> (Inl e, db)
      | Inr None \<Rightarrow> (Inl (SessionException ''Session not found or expired''), db)
      | Inr (Some session) \<Rightarrow>
          (let message = \<lparr>m_id = uuid4, m_session_id = session_id, m_role = role,
                          m_content = content, m_created_at = clk 2\<rparr>;
               session' = session\<lparr>message_count := message_count session + 1,
                                   last_activity := clk 0,
                                   s_updated_at := clk 1\<rparr>
           in if uuid4 \<in> set (map m_id (messages db)) then (Inl IntegrityError, db)
              else (Inr message,
                    db\<lparr>sessions := update_row session' (sessions db),
                       messages := messages db @ [message]\<rparr>)))"

text \<open>
  \<open>ORDER BY created_at ASC\<close> is the stable sort of the selected rows: rows created at the
  same instant stay in table order.
\<close>

definition list_messages :: "store \<Rightarrow> string \<Rightarrow> error + chat_message list" where
  "list_messages db session_id =
     (case scalar_one_or_none
             (filter (\<lambda>s. s_id s = session_id \<and> is_active s) (sessions db)) of
        Inl e \<Rightarrow> Inl e
      | Inr None \<Rightarrow> Inl (SessionException ''Session not found or expired'')
      | Inr (Some session) \<Rightarrow>
          Inr (sort_key m_created_at
                 (filter (\<lambda>m. m_session_id m = session_id) (messages db))))"

definition deactivate_session :: "(nat \<Rightarrow> datetime) \<Rightarrow> store \<Rightarrow> string \<Rightarrow> bool \<times> store" where
  "deactivate_session clk db session_id =
     (filter (\<lambda>s. s_id s = session_id) (sessions db) \<noteq> [],
      db\<lparr>sessions := map (\<lambda>s. if s_id s = session_id
                                then s\<lparr>is_active := False, s_updated_at := clk 0\<rparr> else s)
                          (sessions db)\<rparr>)"

text \<open>The two \<open>DELETE\<close> statements of \<open>cleanup_expired_sessions\<close>.\<close>

definition delete_messages_in :: "string list \<Rightarrow> store \<Rightarrow> store" where
  "delete_messages_in session_ids db =
     db\<lparr>messages := filter (\<lambda>m. m_session_id m \<notin> set session_ids) (messages db)\<rparr>"

definition delete_sessions_in :: "string list \<Rightarrow> store \<Rightarrow> store" where
  "delete_sessions_in session_ids db =
     db\<lparr>sessions := filter (\<lambda>s. s_id s \<notin> set session_ids) (sessions db)\<rparr>"

definition cleanup_expired_sessions :: "(nat \<Rightarrow> datetime) \<Rightarrow> store \<Rightarrow> nat \<times> store" where
  "cleanup_expired_sessions clk db =
     (let expired = filter (\<lambda>s. expires_before s (clk 0) \<and> is_active s) (sessions db) in
      if expired = [] then (0, db)
      else
        (let session_ids = map s_id expired
         in (length expired, delete_sessions_in session_ids (delete_messages_in session_ids db))))"

text \<open>
  The constraints that \<open>models.py\<close> declares: \<open>id\<close> is the primary key of
  \<open>chat_sessions\<close>, and \<open>chat_messages.session_id\<close> is a foreign key to it.
\<close>

definition primary_key_ok :: "store \<Rightarrow> bool" where
  "primary_key_ok db = distinct (map s_id (sessions db))"

definition foreign_key_ok :: "store \<Rightarrow> bool" where
  "foreign_key_ok db =
     list_all (\<lambda>m. m_session_id m \<in> set (map s_id (sessions db))) (messages db)"

text \<open>The \<open>WHERE\<close> clause of the query of \<open>cleanup_expired_sessions\<close>, at the instant \<open>now\<close>.\<close>

definition swept :: "datetime \<Rightarrow> chat_session \<Rightarrow> bool" where
  "swept now s = (expires_before s now \<and> is_active s)"

text \<open>The row that \<open>get_or_create_session\<close> inserts, as \<open>insert_new_session\<close> builds it.\<close>

definition new_session_row :: "(nat \<Rightarrow> datetime) \<Rightarrow> string \<Rightarrow> chat_session" where
  "new_session_row clk uuid4 =
     \<lparr>s_id = uuid4,
      s_created_at = clk 1,
      s_updated_at = clk 2,
      expires_at = Some (clk 0 + session_timeout),
      is_active = True,
      message_count = 0,
      last_activity = clk 3\<rparr>"

section \<open>Ingestion (\<open>ingest_faq\<close> in \<open>app/api/ingest.py\<close>, \<open>VectorStore.upsert_faqs\<close>)\<close>

text \<open>
  \<open>uuid5\<close> stands for \<open>lambda q: str(uuid.uuid5(uuid.NAMESPACE_URL, q))\<close> and \<open>encode\<close> for
  the embedding client (\<open>None\<close> when it raises); both are library code and stay parameters.
  The index is the keyed collection of the vector database: \<open>upsert\<close> writes each record
  under its id, in the order given, replacing the record that had the id.
\<close>

record faq_item =
  question :: string
  item_answer :: string

type_synonym vector = "real list"

type_synonym index = "string \<rightharpoonup> (vector \<times> metadata)"

definition upsert_faqs :: "index \<Rightarrow> string list \<Rightarrow> vector list \<Rightarrow> metadata list \<Rightarrow> index" where
  "upsert_faqs idx ids vectors metadatas =
     fold (\<lambda>(i, v, m) ix. ix(i \<mapsto> (v, m))) (zip ids (zip vectors metadatas)) idx"

definition faq_metadata :: "string \<Rightarrow> string \<Rightarrow> metadata" where
  "faq_metadata q a = [''question'' \<mapsto> q, ''answer'' \<mapsto> a]"

text \<open>The list \<open>ids\<close> of line 20.\<close>

definition ingest_ids :: "(string \<Rightarrow> string) \<Rightarrow> faq_item list \<Rightarrow> string list" where
  "ingest_ids uuid5 items = map uuid5 (map question items)"

definition ingest_faq ::
  "(string \<Rightarrow> string) \<Rightarrow> (string list \<Rightarrow> vector list option) \<Rightarrow> index \<Rightarrow> faq_item list \<Rightarrow>
     (error + nat) \<times> index" where
  "ingest_faq uuid5 encode idx items =
     (if items = [] then (Inl (HTTPException 400 ''No FAQ items provided''), idx)
      else
        (let questions = map question items;
             answers = map item_answer items;
             metadatas = map (\<lambda>(q, a). faq_metadata q a) (zip questions answers);
             ids = ingest_ids uuid5 items
         in case encode (map (\<lambda>(q, a). q @ [NL] @ a) (zip questions answers)) of
              None \<Rightarrow> (Inl EncodeError, idx)
            | Some vectors \<Rightarrow> (Inr (length ids), upsert_faqs idx ids vectors metadatas)))"

section \<open>Example data\<close>

text \<open>A model that answers every kind of prompt, and one that is down.\<close>

definition svc_demo :: services where
  "svc_demo =
     \<lparr>search = (\<lambda>q k. Some []),
      generate = (\<lambda>p. case p of
          TOPIC_ANALYSIS _ \<Rightarrow> Some ''  Billing ''
        | ACTION_SUGGESTIONS _ _ _ _ \<Rightarrow>
            Some (''Here you go:'' @ [NL] @
                  ''  How do I pay?  '' @ [NL] @ [NL] @
                  ''Too short'' @ [NL] @
                  ''PLEASE call us'' @ [NL] @
                  ''Can I get a refund?'')
        | GENERAL_RESPONSE _ _ \<Rightarrow> Some ''I recommend you Escalate this''
        | _ \<Rightarrow> None)\<rparr>"

definition svc_down :: services where
  "svc_down = \<lparr>search = (\<lambda>q k. Some []), generate = (\<lambda>p. None)\<rparr>"

text \<open>
  Three ranked matches under a budget of 25 characters: the first block has 10
  characters, the second 23, the third 10.
\<close>

definition cfg_25 :: settings where
  "cfg_25 = \<lparr>top_k = 3, score_threshold = 75 / 100, max_context_chars = 25\<rparr>"

definition m_first :: match where
  "m_first = (95 / 100, faq_metadata ''a'' ''b'')"

definition m_big :: match where
  "m_big = (90 / 100, faq_metadata ''reset?'' ''see email'')"

definition m_third :: match where
  "m_third = (80 / 100, faq_metadata ''c'' ''d'')"

text \<open>Two matches whose blocks have 600 characters each, under the default budget of 1200.\<close>

definition two_blocks_of_600 :: "match list" where
  "two_blocks_of_600 =
     [(95 / 100, faq_metadata (replicate 92 (CHR ''q'')) (replicate 500 (CHR ''a''))),
      (80 / 100, faq_metadata (replicate 92 (CHR ''r'')) (replicate 500 (CHR ''b'')))]"

text \<open>
  A knowledge base with one entry, retrieved with the given score, and a model that
  answers the FAQ prompt and the general prompt.
\<close>

definition m_hours :: metadata where
  "m_hours = faq_metadata ''hours?'' ''9 to 5''"

definition svc_top :: "real \<Rightarrow> services" where
  "svc_top score =
     \<lparr>search = (\<lambda>q k. Some [(score, m_hours)]),
      generate = (\<lambda>p. case p of
          FAQ_RESPONSE _ _ _ \<Rightarrow> Some '' We open at 9. ''
        | GENERAL_RESPONSE _ _ \<Rightarrow> Some '' Try again later. ''
        | _ \<Rightarrow> None)\<rparr>"

text \<open>
  A top match scored 0.95 whose answer alone has 1200 characters, so that its block
  (1209 characters) is over the default budget; the model of \<open>svc_demo\<close>.
\<close>

definition svc_oversized :: services where
  "svc_oversized =
     \<lparr>search = (\<lambda>q k. Some [(95 / 100, faq_metadata ''q'' (replicate 1200 (CHR ''a'')))]),
      generate = generate svc_demo\<rparr>"

text \<open>
  A clock that reads the same instant at every call, and a store with one active
  session that expires at instant 100 and owns one message.
\<close>

definition clock_at :: "datetime \<Rightarrow> nat \<Rightarrow> datetime" where
  "clock_at t k = t"

definition s_one :: chat_session where
  "s_one = \<lparr>s_id = ''s1'', s_created_at = 0, s_updated_at = 0, expires_at = Some 100,
            is_active = True, message_count = 1, last_activity = 0\<rparr>"

definition msg_one :: chat_message where
  "msg_one = \<lparr>m_id = ''m1'', m_session_id = ''s1'', m_role = ''user'',
              m_content = ''hello'', m_created_at = 5\<rparr>"

definition db_one :: store where
  "db_one = \<lparr>sessions = [s_one], messages = [msg_one]\<rparr>"

text \<open>A second session, which expires at instant 1000, with a message of its own.\<close>

definition s_two :: chat_session where
  "s_two = \<lparr>s_id = ''s2'', s_created_at = 0, s_updated_at = 0, expires_at = Some 1000,
            is_active = True, message_count = 1, last_activity = 0\<rparr>"

definition msg_two :: chat_message where
  "msg_two = \<lparr>m_id = ''m2'', m_session_id = ''s2'', m_role = ''user'',
              m_content = ''hi'', m_created_at = 7\<rparr>"

definition db_two :: store where
  "db_two = \<lparr>sessions = [s_one, s_two], messages = [msg_one, msg_two]\<rparr>"

definition db_empty :: store where
  "db_empty = \<lparr>sessions = [], messages = []\<rparr>"

text \<open>
  Stand-ins for the two library functions of ingestion, and a batch that holds the same
  question twice, with different answers.
\<close>

definition key_of :: "string \<Rightarrow> string" where
  "key_of q = ''faq:'' @ q"

definition encode_lengths :: "string list \<Rightarrow> vector list option" where
  "encode_lengths texts = Some (map (\<lambda>t. [real (length t)]) texts)"

definition batch_twice :: "faq_item list" where
  "batch_twice =
     [\<lparr>question = ''hours?'', item_answer = ''9 to 5''\<rparr>,
      \<lparr>question = ''hours?'', item_answer = ''8 to 6''\<rparr>]"

section \<open>Properties\<close>

subsection \<open>Action suggestions are filtered, capped and best-effort\<close>

lemmas eval_str = strip_def lstrip_def rstrip_def py_isspace_def NL_def lower_def upper_def
  lower_char_def upper_char_def is_cased_def title_def ascii_uppercase_def ascii_lowercase_def

lemma prefix_take_eq: "prefix p xs = (take (length p) xs = p)"
proof
  assume "prefix p xs"
  then show "take (length p) xs = p" by (auto simp: prefix_def)
next
  assume "take (length p) xs = p"
  then show "prefix p xs" by (metis take_is_prefix)
qed

lemma keep_action_take:
  "keep_action a =
     (10 < length a \<and> \<not> list_ex (\<lambda>p. lower (take (length p) a) = p) filler_openers)"
  by (simp add: keep_action_def list_ex_iff prefix_take_eq lower_def take_map)

lemma keep_action_sound:
  "keep_action a \<Longrightarrow> 10 < length a \<and> (\<forall>p \<in> set filler_openers. \<not> prefix p (lower a))"
  by (auto simp: keep_action_def list_ex_iff)

lemma keep_fallback: "\<forall>a \<in> set fallback_actions. keep_action a"
  by (simp add: fallback_actions_def keep_action_take filler_openers_def lower_def lower_char_def
      ascii_uppercase_def ascii_lowercase_def)

lemma suggest_cases:
  "snd (suggest_next_actions svc q h ctx) = fallback_actions \<or>
   (\<exists>xs. snd (suggest_next_actions svc q h ctx) = take 5 (filter keep_action xs))"
  by (auto simp: suggest_next_actions_def Let_def split: option.split)

text \<open>
  Claim C10. Whatever the model returns, \<open>suggest_next_actions\<close> yields at most five
  suggestions, each longer than ten characters and none beginning, in any letter case,
  with one of the filler openers; and when the suggestion call (the last prompt sent)
  fails, the result is the fixed list of four fallback questions, not an error.
\<close>

theorem suggest_next_actions_at_most_five_filtered:
  "length (snd (suggest_next_actions svc query chat_history context)) \<le> 5 \<and>
   (\<forall>a \<in> set (snd (suggest_next_actions svc query chat_history context)).
      10 < length a \<and> (\<forall>p \<in> set filler_openers. \<not> prefix p (lower a))) \<and>
   (generate svc (last (fst (suggest_next_actions svc query chat_history context))) = None \<longrightarrow>
      snd (suggest_next_actions svc query chat_history context) = fallback_actions \<and>
      length fallback_actions = 4)"
proof (intro conjI)
  show "length (snd (suggest_next_actions svc query chat_history context)) \<le> 5"
    using suggest_cases [of svc query chat_history "context"]
    by (auto simp: fallback_actions_def)
  show "\<forall>a \<in> set (snd (suggest_next_actions svc query chat_history context)).
      10 < length a \<and> (\<forall>p \<in> set filler_openers. \<not> prefix p (lower a))"
  proof
    fix a assume a: "a \<in> set (snd (suggest_next_actions svc query chat_history context))"
    have "keep_action a"
    proof -
      from suggest_cases [of svc query chat_history "context"] show ?thesis
      proof
        assume "snd (suggest_next_actions svc query chat_history context) = fallback_actions"
        with a keep_fallback show ?thesis by simp
      next
        assume "\<exists>xs. snd (suggest_next_actions svc query chat_history context) =
                  take 5 (filter keep_action xs)"
        then obtain xs where "a \<in> set (take 5 (filter keep_action xs))" using a by auto
        then have "a \<in> set (filter keep_action xs)" by (rule in_set_takeD)
        then show ?thesis by simp
      qed
    qed
    then show "10 < length a \<and> (\<forall>p \<in> set filler_openers. \<not> prefix p (lower a))"
      by (rule keep_action_sound)
  qed
  show "generate svc (last (fst (suggest_next_actions svc query chat_history context))) = None \<longrightarrow>
      snd (suggest_next_actions svc query chat_history context) = fallback_actions \<and>
      length fallback_actions = 4"
    by (auto simp: suggest_next_actions_def Let_def fallback_actions_def split: option.split)
qed

theorem suggest_next_actions_witness:
  "snd (suggest_next_actions svc_demo ''refund?'' [(''user'', ''hi'')] []) =
     [''How do I pay?'', ''Can I get a refund?''] \<and>
   10 < length ''How do I pay?'' \<and>
   \<not> prefix ''here'' (lower ''How do I pay?'') \<and>
   generate svc_down (last (fst (suggest_next_actions svc_down ''refund?'' [] []))) = None \<and>
   snd (suggest_next_actions svc_down ''refund?'' [] []) = fallback_actions"
proof -
  have run: "snd (suggest_next_actions svc_demo ''refund?'' [(''user'', ''hi'')] []) =
     [''How do I pay?'', ''Can I get a refund?'']"
    by (simp add: suggest_next_actions_def svc_demo_def last_turns_def keep_action_take
        filler_openers_def Let_def eval_str)
  have down: "generate svc_down (last (fst (suggest_next_actions svc_down ''refund?'' [] [])))
     = None"
    by (simp add: svc_down_def)
  have "\<forall>a \<in> set (snd (suggest_next_actions svc_demo ''refund?'' [(''user'', ''hi'')] [])).
          10 < length a \<and> (\<forall>p \<in> set filler_openers. \<not> prefix p (lower a))"
    using suggest_next_actions_at_most_five_filtered
            [of svc_demo "''refund?''" "[(''user'', ''hi'')]" "[]"]
    by (elim conjE)
  then have "10 < length ''How do I pay?'' \<and>
             (\<forall>p \<in> set filler_openers. \<not> prefix p (lower ''How do I pay?''))"
    unfolding run by (elim ballE [where x = "''How do I pay?''"]) simp_all
  then have kept: "10 < length ''How do I pay?'' \<and> \<not> prefix ''here'' (lower ''How do I pay?'')"
    unfolding filler_openers_def by (elim conjE ballE [where x = "''here''"]) simp_all
  have "snd (suggest_next_actions svc_down ''refund?'' [] []) = fallback_actions"
    using suggest_next_actions_at_most_five_filtered [of svc_down "''refund?''" "[]" "[]"] down
    by (elim conjE impE) simp_all
  with run kept down show ?thesis by (intro conjI) simp_all
qed

subsection \<open>Context assembly fills from the top and stops at the first overflow\<close>

lemma collect_parts_stop:
  "int (chars + blocks_len pre) \<le> budget \<Longrightarrow>
   int (chars + blocks_len pre + length (format_qa (snd m))) > budget \<Longrightarrow>
   collect_parts budget (pre @ m # post) parts chars = parts @ map (\<lambda>m. format_qa (snd m)) pre"
proof (induction pre arbitrary: parts chars)
  case Nil
  then show ?case by (cases m) (simp add: blocks_len_def)
next
  case (Cons p pre)
  obtain sc meta where p: "p = (sc, meta)" by (cases p)
  from Cons.prems have fit: "\<not> int (chars + length (format_qa meta)) > budget"
    by (simp add: blocks_len_def p)
  have "collect_parts budget (pre @ m # post) (parts @ [format_qa meta])
          (chars + length (format_qa meta))
        = (parts @ [format_qa meta]) @ map (\<lambda>m. format_qa (snd m)) pre"
    using Cons.prems by (intro Cons.IH) (simp_all add: blocks_len_def p add.assoc)
  with fit show ?case by (simp add: p Let_def)
qed

lemma collect_parts_all:
  "int (chars + blocks_len ms) \<le> budget \<Longrightarrow>
   collect_parts budget ms parts chars = parts @ map (\<lambda>m. format_qa (snd m)) ms"
proof (induction ms arbitrary: parts chars)
  case Nil
  then show ?case by simp
next
  case (Cons p ms)
  obtain sc meta where p: "p = (sc, meta)" by (cases p)
  from Cons.prems have fit: "\<not> int (chars + length (format_qa meta)) > budget"
    by (simp add: blocks_len_def p)
  have "collect_parts budget ms (parts @ [format_qa meta]) (chars + length (format_qa meta))
        = (parts @ [format_qa meta]) @ map (\<lambda>m. format_qa (snd m)) ms"
    using Cons.prems by (intro Cons.IH) (simp_all add: blocks_len_def p add.assoc)
  with fit show ?case by (simp add: p Let_def)
qed

lemma build_context_of_parts:
  "fst (build_context_of cfg ms) = join [NL] (collect_parts (max_context_chars cfg) ms [] 0)"
  by (cases ms) (auto simp: build_context_of_def)

lemmas eval_ctx = format_qa_def meta_get_def faq_metadata_def NL_def

text \<open>
  Claim C4. The blocks are appended in the order of the matches while the running count
  stays within the budget: when all blocks fit, all are in the context; and when
  \<open>m\<close> is the first match whose block would take the count over the budget, the context
  holds exactly the blocks of the matches before \<open>m\<close>, whatever follows \<open>m\<close>.
\<close>

theorem build_context_stops_at_first_overflow:
  "(int (blocks_len ms) \<le> max_context_chars cfg \<longrightarrow>
      fst (build_context_of cfg ms) = join [NL] (map (\<lambda>m. format_qa (snd m)) ms)) \<and>
   (ms = pre @ m # post \<and>
    int (blocks_len pre) \<le> max_context_chars cfg \<and>
    int (blocks_len pre + length (format_qa (snd m))) > max_context_chars cfg \<longrightarrow>
      fst (build_context_of cfg ms) = join [NL] (map (\<lambda>m. format_qa (snd m)) pre))"
  using collect_parts_all [of 0 ms "max_context_chars cfg" "[]"]
        collect_parts_stop [of 0 pre "max_context_chars cfg" m post "[]"]
  by (auto simp: build_context_of_parts)

theorem build_context_stops_witness:
  "int (blocks_len [m_first]) \<le> max_context_chars cfg_25 \<and>
   int (blocks_len [m_first] + length (format_qa (snd m_big))) > max_context_chars cfg_25 \<and>
   int (blocks_len [m_first] + length (format_qa (snd m_third))) \<le> max_context_chars cfg_25 \<and>
   fst (build_context_of cfg_25 [m_first, m_big, m_third]) = ''Q: a'' @ [NL] @ ''A: b'' @ [NL] \<and>
   fst (build_context_of cfg_25 [m_first, m_third]) =
     ''Q: a'' @ [NL] @ ''A: b'' @ [NL] @ [NL] @ ''Q: c'' @ [NL] @ ''A: d'' @ [NL]"
  using build_context_stops_at_first_overflow
          [of "[m_first, m_big, m_third]" cfg_25 "[m_first]" m_big "[m_third]"]
        build_context_stops_at_first_overflow [of "[m_first, m_third]" cfg_25 "[]" m_first "[]"]
  by (simp add: blocks_len_def cfg_25_def m_first_def m_big_def m_third_def eval_ctx)

subsection \<open>The size of the context\<close>

lemma build_context_best_overflow_empty:
  "int (length (format_qa meta)) > max_context_chars cfg \<Longrightarrow>
   fst (build_context_of cfg ((score, meta) # rest)) = []"
  by (simp add: build_context_of_def)

lemma length_join_char:
  "length (join [c] parts) = sum_list (map length parts) + (length parts - 1)"
  by (induction "[c]" parts rule: join.induct) auto

lemma collect_parts_sum:
  "int chars \<le> budget \<Longrightarrow> int (sum_list (map length parts)) \<le> int chars \<Longrightarrow>
   int (sum_list (map length (collect_parts budget ms parts chars))) \<le> budget"
proof (induction budget ms parts chars rule: collect_parts.induct)
  case (1 budget context_parts chars)
  then show ?case by simp
next
  case (2 budget score meta matches context_parts chars)
  then show ?case by (auto simp: Let_def)
qed

text \<open>
  What the loop does bound is the sum of the block lengths; the context is longer by
  the separators that \<open>join\<close> puts between the blocks.
\<close>

lemma build_context_length_bound:
  assumes "0 \<le> max_context_chars cfg"
  shows "int (length (fst (build_context_of cfg ms)))
           \<le> max_context_chars cfg
             + int (length (collect_parts (max_context_chars cfg) ms [] 0) - 1)"
  using collect_parts_sum [of 0 "max_context_chars cfg" "[]" ms] assms
  by (simp add: build_context_of_parts length_join_char)

text \<open>
  Claim C3. The returned context can be longer than \<open>max_context_chars\<close>: under the
  default budget of 1200 characters, two blocks of 600 characters each pass the test
  of the loop (their lengths add up to 1200) and are joined into a context of 1201
  characters.
\<close>

theorem build_context_separators_exceed_budget:
  "max_context_chars default_settings = 1200 \<and>
   blocks_len two_blocks_of_600 = 1200 \<and>
   length (fst (build_context_of default_settings two_blocks_of_600)) = 1201"
  by (simp add: build_context_of_def default_settings_def two_blocks_of_600_def blocks_len_def
      eval_ctx)

subsection \<open>Insufficient evidence: the general-knowledge path and escalation\<close>

lemmas eval_sublist = sublist_Cons_right

lemma sublist_dropWhile_iff:
  assumes "m \<noteq> []" and "\<not> P (hd m)"
  shows "sublist m (dropWhile P s) = sublist m s"
proof
  assume "sublist m (dropWhile P s)"
  moreover have "sublist (dropWhile P s) s" by simp
  ultimately show "sublist m s" by (rule sublist_order.order.trans)
next
  assume "sublist m s"
  then obtain ps ss where s: "s = ps @ m @ ss" by (auto simp: sublist_def)
  from assms obtain a m' where m: "m = a # m'" and a: "\<not> P a" by (cases m) auto
  show "sublist m (dropWhile P s)"
  proof (cases "\<forall>x\<in>set ps. P x")
    case True
    then have "dropWhile P s = m @ ss" using a by (simp add: s m dropWhile_append)
    then show ?thesis by simp
  next
    case False
    then have "dropWhile P s = dropWhile P ps @ m @ ss" by (auto simp add: s dropWhile_append)
    then show ?thesis by simp
  qed
qed

lemma sublist_strip:
  assumes "m \<noteq> []" and "\<not> py_isspace (hd m)" and "\<not> py_isspace (last m)"
  shows "sublist m (strip s) = sublist m s"
proof -
  have "sublist m (strip s) = sublist (rev m) (dropWhile py_isspace (rev (lstrip s)))"
    by (simp add: strip_def rstrip_def sublist_rev_right)
  also have "\<dots> = sublist (rev m) (rev (lstrip s))"
    using assms by (intro sublist_dropWhile_iff) (simp_all add: hd_rev)
  also have "\<dots> = sublist m (dropWhile py_isspace s)" by (simp add: lstrip_def)
  also have "\<dots> = sublist m s" using assms by (intro sublist_dropWhile_iff)
  finally show ?thesis .
qed

lemma lower_char_cases:
  "lower_char c = c \<or> (c \<in> set ascii_uppercase \<and> lower_char c \<in> set ascii_lowercase)"
  unfolding lower_char_def
  by (cases "map_of (zip ascii_uppercase ascii_lowercase) c")
     (auto dest!: map_of_SomeD dest: set_zip_leftD set_zip_rightD)

lemma upper_char_cases:
  "upper_char c = c \<or> (c \<in> set ascii_lowercase \<and> upper_char c \<in> set ascii_uppercase)"
  unfolding upper_char_def
  by (cases "map_of (zip ascii_lowercase ascii_uppercase) c")
     (auto dest!: map_of_SomeD dest: set_zip_leftD set_zip_rightD)

lemma letters_not_space:
  "c \<in> set ascii_uppercase \<Longrightarrow> \<not> py_isspace c"
  "c \<in> set ascii_lowercase \<Longrightarrow> \<not> py_isspace c"
  by (auto simp: py_isspace_def ascii_uppercase_def ascii_lowercase_def)

lemma isspace_lower_char: "py_isspace (lower_char c) = py_isspace c"
  using lower_char_cases [of c] letters_not_space by auto

lemma isspace_upper_char: "py_isspace (upper_char c) = py_isspace c"
  using upper_char_cases [of c] letters_not_space by auto

lemma strip_map:
  assumes "\<And>c. py_isspace (f c) = py_isspace c"
  shows "strip (map f s) = map f (strip s)"
proof -
  have eq: "py_isspace \<circ> f = py_isspace" using assms by (simp add: fun_eq_iff)
  show ?thesis
    by (simp add: strip_def rstrip_def lstrip_def dropWhile_map rev_map eq)
qed

lemma escalate_scan_strip:
  "(sublist ''ESCALATE_TO_HUMAN'' (upper (strip t)) \<or> sublist ''escalate'' (lower (strip t)))
   = (sublist ''ESCALATE_TO_HUMAN'' (upper t) \<or> sublist ''escalate'' (lower t))"
proof -
  have "lower (strip t) = strip (lower t)" "upper (strip t) = strip (upper t)"
    by (simp_all add: lower_def upper_def strip_map isspace_lower_char isspace_upper_char)
  then show ?thesis by (simp add: sublist_strip py_isspace_def)
qed

lemma build_context_of_insufficient:
  "matches = [] \<or> fst (hd matches) < score_threshold cfg \<Longrightarrow>
   \<exists>ctx. build_context_of cfg matches = (ctx, True, if matches = [] then 0 else fst (hd matches))"
  by (cases matches) (auto simp: build_context_of_def)

text \<open>
  Claim C2. When retrieval returns no match, or a top match scored below the threshold,
  \<open>answer\<close> sends exactly one prompt, the general one (trimmed history and question, no
  context). The request fails with \<open>LLMServiceException\<close> when the model fails; otherwise
  the reply is the fixed apology with \<open>escalate = True\<close> and tier \<open>escalated\<close> exactly when
  the model's text contains \<open>ESCALATE_TO_HUMAN\<close> or \<open>escalate\<close> in any letter case, and
  the trimmed text with \<open>escalate = False\<close> and tier \<open>general\<close> when it does not. In both
  replies the score is the one context assembly returned (0 when there is no match).
\<close>

theorem answer_insufficient_evidence:
  assumes "search svc query (top_k cfg) = Some matches"
      and "matches = [] \<or> fst (hd matches) < score_threshold cfg"
  shows "answer svc cfg query chat_history =
     (let best_score = (if matches = [] then 0 else fst (hd matches));
          general_prompt = GENERAL_RESPONSE (history_text (last_turns 6 chat_history)) query
      in ([general_prompt],
          case generate svc general_prompt of
            None \<Rightarrow> Inl (LLMServiceException ''Failed to generate general response'')
          | Some text \<Rightarrow>
              if sublist ''ESCALATE_TO_HUMAN'' (upper text) \<or> sublist ''escalate'' (lower text)
              then Inr (apology, True, best_score, ''escalated'')
              else Inr (strip text, False, best_score, ''general'')))
     \<and> snd (snd (build_context_of cfg matches)) = (if matches = [] then 0 else fst (hd matches))"
proof -
  from build_context_of_insufficient [OF assms(2)] obtain ctx where
    ctx: "build_context_of cfg matches = (ctx, True, if matches = [] then 0 else fst (hd matches))"
    by blast
  show ?thesis
    using assms(1)
    by (simp add: answer_def build_context_def retrieve_def ctx answer_with_def
        get_general_answer_def Let_def escalate_scan_strip split: option.split)
qed

theorem answer_insufficient_evidence_witness:
  "search svc_demo ''refund?'' (top_k default_settings) = Some [] \<and>
   answer svc_demo default_settings ''refund?'' [(''user'', ''hi'')] =
     ([GENERAL_RESPONSE ''user: hi'' ''refund?''], Inr (apology, True, 0, ''escalated'')) \<and>
   search (svc_top (1 / 2)) ''hours?'' (top_k default_settings) = Some [(1 / 2, m_hours)] \<and>
   (1 / 2 :: real) < score_threshold default_settings \<and>
   answer (svc_top (1 / 2)) default_settings ''hours?'' [] =
     ([GENERAL_RESPONSE [] ''hours?''], Inr (''Try again later.'', False, 1 / 2, ''general''))"
proof -
  have s1: "search svc_demo ''refund?'' (top_k default_settings) = Some []"
    by (simp add: svc_demo_def)
  have s2: "search (svc_top (1 / 2)) ''hours?'' (top_k default_settings) = Some [(1 / 2, m_hours)]"
    by (simp add: svc_top_def)
  have low: "(1 / 2 :: real) < score_threshold default_settings"
    by (simp add: default_settings_def)
  have g1: "generate svc_demo (GENERAL_RESPONSE ''user: hi'' ''refund?'')
              = Some ''I recommend you Escalate this''"
    by (simp add: svc_demo_def)
  have g2: "generate (svc_top (1 / 2)) (GENERAL_RESPONSE [] ''hours?'') = Some '' Try again later. ''"
    by (simp add: svc_top_def)
  have found: "sublist ''escalate'' (lower ''I recommend you Escalate this'')"
    by (simp add: eval_str eval_sublist)
  have not_found: "\<not> (sublist ''ESCALATE_TO_HUMAN'' (upper '' Try again later. '') \<or>
                      sublist ''escalate'' (lower '' Try again later. ''))"
    by (simp add: eval_str eval_sublist)
  have stripped: "strip '' Try again later. '' = ''Try again later.''"
    by (simp add: eval_str)
  have "answer svc_demo default_settings ''refund?'' [(''user'', ''hi'')] =
     ([GENERAL_RESPONSE ''user: hi'' ''refund?''], Inr (apology, True, 0, ''escalated''))"
    using answer_insufficient_evidence [OF s1, of "[(''user'', ''hi'')]"] found
    by (simp add: history_text_def last_turns_def Let_def g1)
  moreover have "answer (svc_top (1 / 2)) default_settings ''hours?'' [] =
     ([GENERAL_RESPONSE [] ''hours?''], Inr (''Try again later.'', False, 1 / 2, ''general''))"
    using answer_insufficient_evidence [OF s2, of "[]"] low not_found
    by (simp add: history_text_def last_turns_def Let_def g2 stripped)
  ultimately show ?thesis using s1 s2 low by simp
qed

subsection \<open>Sufficient evidence: direct extraction and the FAQ path\<close>

lemma split_once_marker:
  "\<not> sublist [x, y] q \<Longrightarrow> z \<noteq> x \<Longrightarrow> z \<noteq> y \<Longrightarrow>
   split_once [x, y] (q @ z # x # y # t) = Some (q @ [z], t)"
proof (induction q)
  case Nil
  then show ?case by simp
next
  case (Cons c cs)
  from Cons.prems(1) have no_cs: "\<not> sublist [x, y] cs" and no_pre: "\<not> prefix [x, y] (c # cs)"
    by (simp_all add: sublist_Cons_right)
  have "\<not> prefix [x, y] (c # cs @ z # x # y # t)"
  proof (cases cs)
    case Nil
    with Cons.prems show ?thesis by auto
  next
    case (Cons d ds)
    with no_pre show ?thesis by auto
  qed
  with Cons.IH [OF no_cs Cons.prems(2,3)] show ?case by simp
qed

lemma collect_parts_acc:
  "collect_parts budget ms parts chars = parts @ collect_parts budget ms [] chars"
proof (induction ms arbitrary: parts chars)
  case Nil
  then show ?case by simp
next
  case (Cons p ms)
  obtain sc meta where p: "p = (sc, meta)" by (cases p)
  show ?case
    using Cons.IH [of "parts @ [format_qa meta]" "chars + length (format_qa meta)"]
          Cons.IH [of "[format_qa meta]" "chars + length (format_qa meta)"]
    by (simp add: p Let_def)
qed

lemma join_Cons: "join sep (x # xs) = x @ (if xs = [] then [] else sep @ join sep xs)"
  by (cases xs) simp_all

text \<open>The context starts with the block of the top match as soon as that block fits.\<close>

lemma build_context_of_top_block:
  assumes "int (length (format_qa meta)) \<le> max_context_chars cfg"
  shows "\<exists>rem. fst (build_context_of cfg ((score, meta) # rest)) = format_qa meta @ rem \<and>
               (rem = [] \<or> hd rem = NL)"
proof -
  let ?tail = "collect_parts (max_context_chars cfg) rest [] (length (format_qa meta))"
  have "collect_parts (max_context_chars cfg) ((score, meta) # rest) [] 0 = format_qa meta # ?tail"
    using assms collect_parts_acc [of "max_context_chars cfg" rest "[format_qa meta]"]
    by (simp add: Let_def)
  then have "fst (build_context_of cfg ((score, meta) # rest)) =
      format_qa meta @ (if ?tail = [] then [] else [NL] @ join [NL] ?tail)"
    by (simp add: build_context_of_def join_Cons)
  then show ?thesis by auto
qed

lemma build_context_of_nonempty_iff:
  "fst (build_context_of cfg ms) \<noteq> [] \<longleftrightarrow>
     (\<exists>score meta rest. ms = (score, meta) # rest \<and>
        int (length (format_qa meta)) \<le> max_context_chars cfg)"
proof (cases ms)
  case Nil
  then show ?thesis by (simp add: build_context_of_def)
next
  case (Cons p rest)
  obtain score meta where p: "p = (score, meta)" by (cases p)
  show ?thesis
  proof (cases "int (length (format_qa meta)) \<le> max_context_chars cfg")
    case True
    from build_context_of_top_block [OF True, of score rest]
    have "fst (build_context_of cfg ms) \<noteq> []" by (auto simp: Cons p format_qa_def)
    with True show ?thesis by (simp add: Cons p)
  next
    case False
    then show ?thesis by (simp add: Cons p build_context_of_def)
  qed
qed

lemma rstrip_append:
  assumes "xs \<noteq> []" and "\<not> py_isspace (last xs)"
  shows "rstrip (xs @ ys) = xs @ rstrip ys"
proof (cases "\<forall>c \<in> set ys. py_isspace c")
  case True
  then have "dropWhile py_isspace (rev ys) = []" by simp
  moreover from True assms have "dropWhile py_isspace (rev ys @ rev xs) = rev xs"
    by (simp add: dropWhile_append hd_rev) (metis dropWhile_eq_self_iff hd_rev rev_is_Nil_conv)
  ultimately show ?thesis by (simp add: rstrip_def)
next
  case False
  then have "dropWhile py_isspace (rev ys @ rev xs) = dropWhile py_isspace (rev ys) @ rev xs"
    by (auto simp: dropWhile_append)
  then show ?thesis by (simp add: rstrip_def)
qed

lemma rstrip_prefix: "prefix (rstrip ys) ys"
proof -
  have "ys = rev (takeWhile py_isspace (rev ys) @ dropWhile py_isspace (rev ys))" by simp
  also have "\<dots> = rstrip ys @ rev (takeWhile py_isspace (rev ys))"
    by (simp only: rev_append rstrip_def)
  finally show ?thesis by (metis prefixI)
qed

lemma rstrip_head: "rstrip (c # ys) = [] \<or> hd (rstrip (c # ys)) = c"
  using rstrip_prefix [of "c # ys"] by (cases "rstrip (c # ys)") auto

lemma split_char_first: "\<exists>rest. split_char c s = takeWhile (\<lambda>x. x \<noteq> c) s # rest"
proof (induction s)
  case Nil
  then show ?case by simp
next
  case (Cons x xs)
  then show ?case by (auto split: list.split)
qed

lemma takeWhile_before_sep:
  "r = [] \<or> hd r = c \<Longrightarrow> takeWhile (\<lambda>x. x \<noteq> c) (a @ r) = takeWhile (\<lambda>x. x \<noteq> c) a"
proof (induction a)
  case Nil
  then show ?case by (cases r) auto
next
  case (Cons x xs)
  then show ?case by simp
qed

text \<open>What \<open>best_answer_of\<close> extracts from a context that starts with a well-formed block.\<close>

lemma best_answer_of_top_block:
  assumes q: "\<not> sublist ''A:'' q"
      and a: "a \<noteq> []" "\<not> py_isspace (hd a)" "\<not> py_isspace (last a)"
      and rem: "rem = [] \<or> hd rem = NL"
  shows "best_answer_of ((''Q: '' @ q @ [NL] @ ''A: '' @ a @ [NL]) @ rem)
           = Some (takeWhile (\<lambda>c. c \<noteq> NL) a)"
proof -
  let ?ctx = "(''Q: '' @ q @ [NL] @ ''A: '' @ a @ [NL]) @ rem"
  let ?after = "CHR '' '' # a @ NL # rem"
  have ctx: "?ctx = (''Q: '' @ q) @ NL # CHR ''A'' # CHR '':'' # ?after" by simp
  have "\<not> sublist ''A:'' (''Q: '' @ q)" using q by (simp add: sublist_Cons_right)
  then have split: "split_once ''A:'' ?ctx = Some ((''Q: '' @ q) @ [NL], ?after)"
    unfolding ctx by (intro split_once_marker) (simp_all add: NL_def)
  have "sublist ''A:'' ((''Q: '' @ q @ [NL]) @ ''A:'' @ ?after)" by (rule sublist_appendI)
  then have occurs: "sublist ''A:'' ?ctx" by simp
  have nl: "py_isspace NL" by (simp add: py_isspace_def NL_def)
  have "lstrip ?after = a @ NL # rem"
    using a by (cases a) (simp_all add: lstrip_def py_isspace_def)
  then have "strip ?after = a @ rstrip (NL # rem)"
    using a by (simp add: strip_def rstrip_append)
  moreover have "rstrip (NL # rem) = [] \<or> hd (rstrip (NL # rem)) = NL" by (rule rstrip_head)
  ultimately have first: "takeWhile (\<lambda>c. c \<noteq> NL) (strip ?after) = takeWhile (\<lambda>c. c \<noteq> NL) a"
    by (simp add: takeWhile_before_sep)
  obtain rest where "split_char NL (strip ?after) = takeWhile (\<lambda>c. c \<noteq> NL) (strip ?after) # rest"
    using split_char_first by blast
  with first have "split_char NL (strip ?after) = takeWhile (\<lambda>c. c \<noteq> NL) a # rest" by simp
  with split occurs show ?thesis by (simp add: best_answer_of_def)
qed


lemma answer_with_sufficient:
  assumes "ctx \<noteq> []"
  shows "answer_with svc query h (ctx, False, score) =
     (let p = FAQ_RESPONSE ctx (history_text (last_turns 6 h)) query;
          faq = ([p], case generate svc p of
                        None \<Rightarrow> Inl (LLMServiceException ''Failed to generate FAQ response'')
                      | Some text \<Rightarrow> Inr (strip text, False, score, ''faq''))
      in if 9 / 10 \<le> score then
           (case best_answer_of ctx of
              None \<Rightarrow> faq
            | Some b \<Rightarrow> if b \<noteq> [] then ([], Inr (b, False, score, ''faq'')) else faq)
         else faq)"
  using assms by (simp add: answer_with_def Let_def split: option.split)

text \<open>
  Claim C1, as amended. When the top match is scored at or above the threshold and its
  block fits the budget (so that the context is not empty): every reply has
  \<open>escalate = False\<close>, tier \<open>faq\<close> and the top score, and at most one prompt is sent, the
  FAQ prompt; below 0.90 the reply is the model's trimmed text for that prompt, or the
  request fails with \<open>LLMServiceException\<close>; at 0.90 or above, when the question of the top
  match does not contain \<open>A:\<close> and its answer is not empty and neither starts nor ends with
  white space, the reply is the first line of that answer and no prompt is sent.
\<close>

theorem answer_sufficient_evidence:
  assumes "search svc query (top_k cfg) = Some ((score, meta) # rest)"
      and "score_threshold cfg \<le> score"
      and "int (length (format_qa meta)) \<le> max_context_chars cfg"
  shows "(\<forall>calls text escalate sc tier.
            answer svc cfg query h = (calls, Inr (text, escalate, sc, tier)) \<longrightarrow>
              \<not> escalate \<and> sc = score \<and> tier = ''faq'') \<and>
         (fst (answer svc cfg query h) = [] \<or>
          fst (answer svc cfg query h) =
            [FAQ_RESPONSE (fst (build_context_of cfg ((score, meta) # rest)))
               (history_text (last_turns 6 h)) query]) \<and>
         (score < 9 / 10 \<longrightarrow>
            answer svc cfg query h =
              (let p = FAQ_RESPONSE (fst (build_context_of cfg ((score, meta) # rest)))
                         (history_text (last_turns 6 h)) query
               in ([p], case generate svc p of
                          None \<Rightarrow> Inl (LLMServiceException ''Failed to generate FAQ response'')
                        | Some text \<Rightarrow> Inr (strip text, False, score, ''faq'')))) \<and>
         (9 / 10 \<le> score \<and>
          \<not> sublist ''A:'' (meta_get meta ''question'') \<and>
          meta_get meta ''answer'' \<noteq> [] \<and>
          \<not> py_isspace (hd (meta_get meta ''answer'')) \<and>
          \<not> py_isspace (last (meta_get meta ''answer'')) \<longrightarrow>
            answer svc cfg query h =
              ([], Inr (takeWhile (\<lambda>c. c \<noteq> NL) (meta_get meta ''answer''), False, score, ''faq'')))"
proof -
  let ?ms = "(score, meta) # rest"
  let ?a = "meta_get meta ''answer''"
  define ctx where "ctx = fst (build_context_of cfg ?ms)"
  from build_context_of_top_block [OF assms(3), of score rest] obtain rem where
    ctx: "ctx = format_qa meta @ rem" and rem: "rem = [] \<or> hd rem = NL"
    unfolding ctx_def by blast
  have ne: "ctx \<noteq> []" by (simp add: ctx format_qa_def)
  have bc: "build_context_of cfg ?ms = (ctx, False, score)"
    using assms(2) by (simp add: ctx_def build_context_of_def)
  have "answer svc cfg query h = answer_with svc query h (ctx, False, score)"
    using assms(1) by (simp add: answer_def build_context_def retrieve_def bc)
  note unfolded = this [unfolded answer_with_sufficient [OF ne]]
  have A: "\<forall>calls text escalate sc tier.
            answer svc cfg query h = (calls, Inr (text, escalate, sc, tier)) \<longrightarrow>
              \<not> escalate \<and> sc = score \<and> tier = ''faq''"
    unfolding unfolded by (auto simp: Let_def split: option.splits if_splits)
  have A': "fst (answer svc cfg query h) = [] \<or>
          fst (answer svc cfg query h) =
            [FAQ_RESPONSE ctx (history_text (last_turns 6 h)) query]"
    unfolding unfolded by (auto simp: Let_def split: option.splits if_splits)
  have B: "score < 9 / 10 \<longrightarrow>
            answer svc cfg query h =
              (let p = FAQ_RESPONSE ctx (history_text (last_turns 6 h)) query
               in ([p], case generate svc p of
                          None \<Rightarrow> Inl (LLMServiceException ''Failed to generate FAQ response'')
                        | Some text \<Rightarrow> Inr (strip text, False, score, ''faq'')))"
    unfolding unfolded by (simp add: Let_def)
  have C: "9 / 10 \<le> score \<and>
          \<not> sublist ''A:'' (meta_get meta ''question'') \<and>
          ?a \<noteq> [] \<and> \<not> py_isspace (hd ?a) \<and> \<not> py_isspace (last ?a) \<longrightarrow>
            answer svc cfg query h =
              ([], Inr (takeWhile (\<lambda>c. c \<noteq> NL) ?a, False, score, ''faq''))"
  proof (intro impI, elim conjE)
    assume hi: "9 / 10 \<le> score" and q: "\<not> sublist ''A:'' (meta_get meta ''question'')"
      and a: "?a \<noteq> []" "\<not> py_isspace (hd ?a)" "\<not> py_isspace (last ?a)"
    have best: "best_answer_of ctx = Some (takeWhile (\<lambda>c. c \<noteq> NL) ?a)"
      unfolding ctx format_qa_def by (rule best_answer_of_top_block [OF q a rem])
    have "hd ?a \<noteq> NL" using a(2) by (auto simp: py_isspace_def NL_def)
    then have "takeWhile (\<lambda>c. c \<noteq> NL) ?a \<noteq> []" using a(1) by (cases ?a) auto
    with hi best show "answer svc cfg query h =
              ([], Inr (takeWhile (\<lambda>c. c \<noteq> NL) ?a, False, score, ''faq''))"
      unfolding unfolded by (simp add: Let_def)
  qed
  from A A' B C show ?thesis unfolding ctx_def by blast
qed

theorem answer_sufficient_evidence_witness:
  "search (svc_top (95 / 100)) ''hours?'' (top_k default_settings) = Some [(95 / 100, m_hours)] \<and>
   score_threshold default_settings \<le> 95 / 100 \<and>
   int (length (format_qa m_hours)) \<le> max_context_chars default_settings \<and>
   answer (svc_top (95 / 100)) default_settings ''hours?'' [] =
     ([], Inr (''9 to 5'', False, 95 / 100, ''faq'')) \<and>
   answer (svc_top (80 / 100)) default_settings ''hours?'' [] =
     ([FAQ_RESPONSE (''Q: hours?'' @ [NL] @ ''A: 9 to 5'' @ [NL]) [] ''hours?''],
      Inr (''We open at 9.'', False, 80 / 100, ''faq''))"
proof -
  have s1: "search (svc_top (95 / 100)) ''hours?'' (top_k default_settings)
              = Some ((95 / 100, m_hours) # [])"
    and s2: "search (svc_top (80 / 100)) ''hours?'' (top_k default_settings)
              = Some ((80 / 100, m_hours) # [])"
    by (simp_all add: svc_top_def)
  have t1: "score_threshold default_settings \<le> 95 / 100"
    and t2: "score_threshold default_settings \<le> 80 / 100"
    by (simp_all add: default_settings_def)
  have fit: "int (length (format_qa m_hours)) \<le> max_context_chars default_settings"
    by (simp add: default_settings_def m_hours_def eval_ctx)
  have q: "meta_get m_hours ''question'' = ''hours?''"
    and a: "meta_get m_hours ''answer'' = ''9 to 5''"
    by (simp_all add: m_hours_def eval_ctx)
  have pre: "9 / 10 \<le> (95 / 100 :: real) \<and>
        \<not> sublist ''A:'' (meta_get m_hours ''question'') \<and>
        meta_get m_hours ''answer'' \<noteq> [] \<and>
        \<not> py_isspace (hd (meta_get m_hours ''answer'')) \<and>
        \<not> py_isspace (last (meta_get m_hours ''answer''))"
    unfolding q a by (simp add: py_isspace_def eval_sublist)
  have "answer (svc_top (95 / 100)) default_settings ''hours?'' [] =
     ([], Inr (takeWhile (\<lambda>c. c \<noteq> NL) (meta_get m_hours ''answer''), False, 95 / 100, ''faq''))"
    using pre
    by (rule mp [OF answer_sufficient_evidence
                      [OF s1 t1 fit, of "[]", THEN conjunct2, THEN conjunct2, THEN conjunct2]])
  then have direct: "answer (svc_top (95 / 100)) default_settings ''hours?'' [] =
     ([], Inr (''9 to 5'', False, 95 / 100, ''faq''))"
    unfolding a by (simp add: NL_def)
  have ctx: "fst (build_context_of default_settings ((80 / 100, m_hours) # []))
               = ''Q: hours?'' @ [NL] @ ''A: 9 to 5'' @ [NL]"
    by (simp add: build_context_of_def default_settings_def format_qa_def q a)
  have g: "\<And>s c h q. generate (svc_top s) (FAQ_RESPONSE c h q) = Some '' We open at 9. ''"
    by (simp add: svc_top_def)
  have stripped: "strip '' We open at 9. '' = ''We open at 9.''"
    by (simp add: eval_str)
  have lt: "(80 / 100 :: real) < 9 / 10" by simp
  have "answer (svc_top (80 / 100)) default_settings ''hours?'' [] =
      (let p = FAQ_RESPONSE (fst (build_context_of default_settings ((80 / 100, m_hours) # [])))
                         (history_text (last_turns 6 [])) ''hours?''
               in ([p], case generate (svc_top (80 / 100)) p of
                          None \<Rightarrow> Inl (LLMServiceException ''Failed to generate FAQ response'')
                        | Some text \<Rightarrow> Inr (strip text, False, 80 / 100, ''faq'')))"
    using lt
    by (rule mp [OF answer_sufficient_evidence
                      [OF s2 t2 fit, of "[]", THEN conjunct2, THEN conjunct2, THEN conjunct1]])
  then have faq: "answer (svc_top (80 / 100)) default_settings ''hours?'' [] =
     ([FAQ_RESPONSE (''Q: hours?'' @ [NL] @ ''A: 9 to 5'' @ [NL]) [] ''hours?''],
      Inr (''We open at 9.'', False, 80 / 100, ''faq''))"
    unfolding ctx by (simp add: history_text_def last_turns_def Let_def g stripped)
  from s1 t1 fit direct faq show ?thesis by simp
qed

text \<open>
  Claim C1 as stated fails when the block of the top match is over the budget: the
  context is empty, the test \<open>if context and not should_escalate\<close> sends the request to
  the general path although the score is 0.95, and the reply can be an escalation.
\<close>

theorem answer_sufficient_evidence_counterexample:
  "fst (snd (build_context_of default_settings
               [(95 / 100, faq_metadata ''q'' (replicate 1200 (CHR ''a'')))])) = False \<and>
   answer svc_oversized default_settings ''refund?'' [] =
     ([GENERAL_RESPONSE [] ''refund?''], Inr (apology, True, 95 / 100, ''escalated''))"
  by (simp add: answer_def build_context_def retrieve_def svc_oversized_def svc_demo_def
      build_context_of_def default_settings_def eval_ctx answer_with_def get_general_answer_def
      history_text_def last_turns_def Let_def eval_str eval_sublist)



text \<open>
  The extraction takes the text after the first \<open>A:\<close> of the context, which is inside the
  question when the question contains \<open>A:\<close>.
\<close>

lemma best_answer_of_marker_in_question:
  "best_answer_of (format_qa (faq_metadata ''Q&A: hours?'' ''9 to 5'')) = Some ''hours?''"
  by (simp add: best_answer_of_def eval_ctx eval_str eval_sublist)

text \<open>Next line and no-break space are trimmed like the ASCII white space.\<close>

lemma strip_latin1_space:
  "strip (CHR 0xA0 # ''9 to 5'' @ [CHR 0x85, NL]) = ''9 to 5''"
  by (simp add: eval_str)

subsection \<open>Appending a message\<close>

lemma add_message_inactive:
  assumes "\<forall>s \<in> set (sessions db). s_id s = sid \<longrightarrow> \<not> is_active s"
  shows "add_message clk uuid4 db sid r c =
           (Inl (SessionException ''Session not found or expired''), db)"
proof -
  have "filter (\<lambda>s. s_id s = sid \<and> is_active s) (sessions db) = []"
    using assms by (simp add: filter_empty_conv)
  then show ?thesis by (simp add: add_message_def scalar_one_or_none_def)
qed

lemma sessions_deactivate:
  "sessions (snd (deactivate_session clk db sid)) =
     map (\<lambda>s. if s_id s = sid then s\<lparr>is_active := False, s_updated_at := clk 0\<rparr> else s)
         (sessions db)"
  by (simp add: deactivate_session_def)

lemma deactivated_rows:
  "\<forall>s \<in> set (sessions (snd (deactivate_session clk db sid))). s_id s = sid \<longrightarrow> \<not> is_active s"
proof (intro ballI impI)
  fix s
  assume "s \<in> set (sessions (snd (deactivate_session clk db sid)))" and id: "s_id s = sid"
  then have "s \<in> (\<lambda>s. if s_id s = sid then s\<lparr>is_active := False, s_updated_at := clk 0\<rparr> else s)
                 ` set (sessions db)"
    unfolding sessions_deactivate by (simp only: set_map)
  then obtain x where
    s: "s = (if s_id x = sid then x\<lparr>is_active := False, s_updated_at := clk 0\<rparr> else x)"
    by (rule imageE)
  show "\<not> is_active s"
  proof (cases "s_id x = sid")
    case True
    with s show ?thesis by simp
  next
    case False
    with s id show ?thesis by simp
  qed
qed

lemma add_message_failure_unchanged:
  "add_message clk uuid4 db sid r c = (Inl e, db') \<Longrightarrow> db' = db"
  by (simp add: add_message_def scalar_one_or_none_def Let_def
      split: list.splits if_splits)

lemma add_message_success:
  assumes "filter (\<lambda>s. s_id s = sid \<and> is_active s) (sessions db) = [session]"
      and "uuid4 \<notin> set (map m_id (messages db))"
  shows "add_message clk uuid4 db sid r c =
     (let message = \<lparr>m_id = uuid4, m_session_id = sid, m_role = r, m_content = c,
                      m_created_at = clk 2\<rparr>;
          session' = session\<lparr>message_count := message_count session + 1,
                              last_activity := clk 0, s_updated_at := clk 1\<rparr>
      in (Inr message,
          db\<lparr>sessions := update_row session' (sessions db),
             messages := messages db @ [message]\<rparr>))"
  using assms by (simp add: add_message_def scalar_one_or_none_def Let_def)

lemma add_message_success_only:
  assumes "add_message clk uuid4 db sid r c = (Inr m, db')"
  shows "\<exists>session. filter (\<lambda>s. s_id s = sid \<and> is_active s) (sessions db) = [session] \<and>
           uuid4 \<notin> set (map m_id (messages db))"
  using assms by (simp add: add_message_def scalar_one_or_none_def Let_def
      split: list.splits if_splits)

text \<open>
  Claim C8. On a store in which the session has been deactivated, \<open>add_message\<close> raises
  \<open>SessionException\<close> and the store is as before. Whenever \<open>add_message\<close> raises, the
  store is unchanged; whenever it returns the message, one step has appended the message
  and, in the session row, added one to the message count and set the activity and update
  timestamps to the clock readings.
\<close>

theorem add_message_deactivated_fails_else_atomic:
  "add_message clk uuid4 (snd (deactivate_session clk' db0 sid)) sid r c =
     (Inl (SessionException ''Session not found or expired''),
      snd (deactivate_session clk' db0 sid)) \<and>
   (\<forall>e db'. add_message clk uuid4 db sid r c = (Inl e, db') \<longrightarrow> db' = db) \<and>
   (\<forall>m db'. add_message clk uuid4 db sid r c = (Inr m, db') \<longrightarrow>
      (\<exists>session.
         filter (\<lambda>s. s_id s = sid \<and> is_active s) (sessions db) = [session] \<and>
         m = \<lparr>m_id = uuid4, m_session_id = sid, m_role = r, m_content = c,
               m_created_at = clk 2\<rparr> \<and>
         db' = db\<lparr>sessions :=
                    update_row (session\<lparr>message_count := message_count session + 1,
                                         last_activity := clk 0, s_updated_at := clk 1\<rparr>)
                               (sessions db),
                  messages := messages db @ [m]\<rparr>))"
proof (intro conjI allI impI)
  show "add_message clk uuid4 (snd (deactivate_session clk' db0 sid)) sid r c =
     (Inl (SessionException ''Session not found or expired''),
      snd (deactivate_session clk' db0 sid))"
    by (rule add_message_inactive [OF deactivated_rows])
next
  fix e db' assume "add_message clk uuid4 db sid r c = (Inl e, db')"
  then show "db' = db" by (rule add_message_failure_unchanged)
next
  fix m db' assume ok: "add_message clk uuid4 db sid r c = (Inr m, db')"
  from add_message_success_only [OF ok] obtain session where
    one: "filter (\<lambda>s. s_id s = sid \<and> is_active s) (sessions db) = [session]"
    and fresh: "uuid4 \<notin> set (map m_id (messages db))" by blast
  from add_message_success [OF one fresh, of clk r c] ok
  have "m = \<lparr>m_id = uuid4, m_session_id = sid, m_role = r, m_content = c,
               m_created_at = clk 2\<rparr> \<and>
         db' = db\<lparr>sessions :=
                    update_row (session\<lparr>message_count := message_count session + 1,
                                         last_activity := clk 0, s_updated_at := clk 1\<rparr>)
                               (sessions db),
                  messages := messages db @ [m]\<rparr>"
    by (simp add: Let_def)
  with one show "\<exists>session.
         filter (\<lambda>s. s_id s = sid \<and> is_active s) (sessions db) = [session] \<and>
         m = \<lparr>m_id = uuid4, m_session_id = sid, m_role = r, m_content = c,
               m_created_at = clk 2\<rparr> \<and>
         db' = db\<lparr>sessions :=
                    update_row (session\<lparr>message_count := message_count session + 1,
                                         last_activity := clk 0, s_updated_at := clk 1\<rparr>)
                               (sessions db),
                  messages := messages db @ [m]\<rparr>"
    by (intro exI [of _ session]) simp
qed

lemmas eval_db = db_one_def db_two_def db_empty_def s_one_def s_two_def msg_one_def msg_two_def
  clock_at_def scalar_one_or_none_def update_row_def expires_after_def expires_before_def

theorem add_message_witness:
  "add_message (clock_at 60) ''m9'' (snd (deactivate_session (clock_at 50) db_one ''s1''))
       ''s1'' ''user'' ''hi'' =
     (Inl (SessionException ''Session not found or expired''),
      snd (deactivate_session (clock_at 50) db_one ''s1'')) \<and>
   add_message (clock_at 60) ''m9'' db_one ''s1'' ''user'' ''hi'' =
     (Inr \<lparr>m_id = ''m9'', m_session_id = ''s1'', m_role = ''user'', m_content = ''hi'',
            m_created_at = 60\<rparr>,
      \<lparr>sessions = [s_one\<lparr>message_count := 2, last_activity := 60, s_updated_at := 60\<rparr>],
       messages = [msg_one,
                   \<lparr>m_id = ''m9'', m_session_id = ''s1'', m_role = ''user'', m_content = ''hi'',
                     m_created_at = 60\<rparr>]\<rparr>)"
proof -
  note T = add_message_deactivated_fails_else_atomic
      [of "clock_at 60" "''m9''" "clock_at 50" db_one "''s1''" "''user''" "''hi''" db_one]
  have run: "add_message (clock_at 60) ''m9'' db_one ''s1'' ''user'' ''hi'' =
     (Inr \<lparr>m_id = ''m9'', m_session_id = ''s1'', m_role = ''user'', m_content = ''hi'',
            m_created_at = 60\<rparr>,
      \<lparr>sessions = [s_one\<lparr>message_count := 2, last_activity := 60, s_updated_at := 60\<rparr>],
       messages = [msg_one,
                   \<lparr>m_id = ''m9'', m_session_id = ''s1'', m_role = ''user'', m_content = ''hi'',
                     m_created_at = 60\<rparr>]\<rparr>)"
    by (simp add: add_message_def Let_def eval_db)
  from T [THEN conjunct2, THEN conjunct2, rule_format, OF run]
  obtain session where
    "filter (\<lambda>s. s_id s = ''s1'' \<and> is_active s) (sessions db_one) = [session]" by blast
  with T [THEN conjunct1] run show ?thesis by simp
qed

subsection \<open>Expired sessions are not refused by the message operations\<close>

text \<open>
  Claim C6. The session \<open>s1\<close> of \<open>db_one\<close> is active and expired at instant 100. With
  the clock at 200, \<open>list_messages\<close> returns its messages and \<open>add_message\<close> appends to
  it, where the claim wants \<open>SessionException\<close> from both; \<open>get_or_create_session\<close>,
  at the same instant, does treat the session as expired and creates a new one.
\<close>

theorem expired_session_still_served:
  "expires_at s_one = Some 100 \<and> is_active s_one \<and>
   list_messages db_one ''s1'' = Inr [msg_one] \<and>
   add_message (clock_at 200) ''m9'' db_one ''s1'' ''user'' ''hi'' =
     (Inr \<lparr>m_id = ''m9'', m_session_id = ''s1'', m_role = ''user'', m_content = ''hi'',
            m_created_at = 200\<rparr>,
      \<lparr>sessions = [s_one\<lparr>message_count := 2, last_activity := 200, s_updated_at := 200\<rparr>],
       messages = [msg_one,
                   \<lparr>m_id = ''m9'', m_session_id = ''s1'', m_role = ''user'', m_content = ''hi'',
                     m_created_at = 200\<rparr>]\<rparr>) \<and>
   fst (get_or_create_session (clock_at 200) ''u1'' db_one (Some ''s1'')) =
     Inr (new_session_row (clock_at 200) ''u1'')"
  by (simp add: list_messages_def add_message_def get_or_create_session_def
      insert_new_session_def new_session_row_def Let_def eval_db)

text \<open>What does hold: an inactive or unknown session is refused, and the listing is ordered.\<close>

lemma list_messages_inactive:
  assumes "\<forall>s \<in> set (sessions db). s_id s = sid \<longrightarrow> \<not> is_active s"
  shows "list_messages db sid = Inl (SessionException ''Session not found or expired'')"
proof -
  have "filter (\<lambda>s. s_id s = sid \<and> is_active s) (sessions db) = []"
    using assms by (simp add: filter_empty_conv)
  then show ?thesis by (simp add: list_messages_def scalar_one_or_none_def)
qed

lemma list_messages_ordered:
  assumes "list_messages db sid = Inr ms"
  shows "sorted (map m_created_at ms) \<and>
         set ms = {m \<in> set (messages db). m_session_id m = sid} \<and>
         length ms = length (filter (\<lambda>m. m_session_id m = sid) (messages db))"
proof -
  from assms have "ms = sort_key m_created_at (filter (\<lambda>m. m_session_id m = sid) (messages db))"
    by (simp add: list_messages_def scalar_one_or_none_def split: list.splits)
  then show ?thesis by simp
qed

subsection \<open>The sweep of expired sessions\<close>

lemma swept_ids:
  assumes pk: "distinct (map s_id rows)" and s: "s \<in> set rows"
  shows "s_id s \<in> set (map s_id (filter P rows)) \<longleftrightarrow> P s"
proof
  assume "s_id s \<in> set (map s_id (filter P rows))"
  then have "s_id s \<in> s_id ` set (filter P rows)" by (simp only: set_map)
  then obtain t where t: "t \<in> set (filter P rows)" and eq: "s_id s = s_id t" by (rule imageE)
  from t have t_in: "t \<in> set rows" and Pt: "P t" by simp_all
  from pk have "inj_on s_id (set rows)" by (simp add: distinct_map)
  from inj_onD [OF this eq s t_in] have "s = t" .
  with Pt show "P s" by simp
next
  assume "P s"
  with s have "s \<in> set (filter P rows)" by simp
  then have "s_id s \<in> s_id ` set (filter P rows)" by (rule imageI)
  then show "s_id s \<in> set (map s_id (filter P rows))" by (simp only: set_map)
qed

lemma filter_unswept:
  assumes "distinct (map s_id rows)"
  shows "filter (\<lambda>s. s_id s \<notin> set (map s_id (filter P rows))) rows = filter (\<lambda>s. \<not> P s) rows"
proof (rule filter_cong [OF refl])
  fix s assume "s \<in> set rows"
  from swept_ids [OF assms this, of P]
  show "(s_id s \<notin> set (map s_id (filter P rows))) = (\<not> P s)" by simp
qed

lemma store_eq_fields: "db\<lparr>sessions := sessions db, messages := messages db\<rparr> = db"
  by simp

lemma cleanup_unfold:
  "cleanup_expired_sessions clk db =
     (length (filter (swept (clk 0)) (sessions db)),
      delete_sessions_in (map s_id (filter (swept (clk 0)) (sessions db)))
        (delete_messages_in (map s_id (filter (swept (clk 0)) (sessions db))) db))"
proof -
  have sw: "(\<lambda>s. expires_before s (clk 0) \<and> is_active s) = swept (clk 0)"
    by (simp add: swept_def fun_eq_iff)
  show ?thesis
  proof (cases "filter (swept (clk 0)) (sessions db) = []")
    case True
    then show ?thesis
      by (simp add: cleanup_expired_sessions_def sw delete_sessions_in_def delete_messages_in_def)
  next
    case False
    then show ?thesis
      by (simp add: cleanup_expired_sessions_def sw Let_def)
  qed
qed

lemma foreign_key_after_messages:
  assumes "foreign_key_ok db"
  shows "foreign_key_ok (delete_messages_in ids db)"
  using assms by (simp add: foreign_key_ok_def delete_messages_in_def list_all_iff)

lemma foreign_key_after_sessions:
  assumes "foreign_key_ok db"
  shows "foreign_key_ok (delete_sessions_in ids (delete_messages_in ids db))"
proof -
  have "\<forall>m \<in> set (messages db). m_session_id m \<notin> set ids \<longrightarrow>
          m_session_id m \<in> s_id ` {s \<in> set (sessions db). s_id s \<notin> set ids}"
  proof (intro ballI impI)
    fix m assume m: "m \<in> set (messages db)" and out: "m_session_id m \<notin> set ids"
    from assms m have "m_session_id m \<in> s_id ` set (sessions db)"
      by (simp add: foreign_key_ok_def list_all_iff)
    then obtain s where s: "s \<in> set (sessions db)" and eq: "m_session_id m = s_id s"
      by (rule imageE)
    with out have "s \<in> {s \<in> set (sessions db). s_id s \<notin> set ids}" by simp
    with eq show "m_session_id m \<in> s_id ` {s \<in> set (sessions db). s_id s \<notin> set ids}"
      by (simp only: image_eqI)
  qed
  then show ?thesis
    by (simp add: foreign_key_ok_def delete_messages_in_def delete_sessions_in_def list_all_iff)
qed

text \<open>
  Claim C5, as amended. On a store with unique session ids, \<open>cleanup_expired_sessions\<close>
  reading the clock once removes exactly the sessions that are active and whose
  expiration is strictly before that reading, with all messages of these sessions, and
  returns their number; every other session and message stays as it was. The messages
  are deleted first, then the sessions, and after each of the two deletions every
  message still belongs to a stored session.
\<close>

theorem cleanup_removes_active_expired:
  assumes "primary_key_ok db"
  shows "cleanup_expired_sessions clk db =
           (length (filter (swept (clk 0)) (sessions db)),
            db\<lparr>sessions := filter (\<lambda>s. \<not> swept (clk 0) s) (sessions db),
               messages :=
                 filter (\<lambda>m. m_session_id m \<notin>
                              set (map s_id (filter (swept (clk 0)) (sessions db))))
                        (messages db)\<rparr>) \<and>
         snd (cleanup_expired_sessions clk db) =
           delete_sessions_in (map s_id (filter (swept (clk 0)) (sessions db)))
             (delete_messages_in (map s_id (filter (swept (clk 0)) (sessions db))) db) \<and>
         (foreign_key_ok db \<longrightarrow>
            foreign_key_ok (delete_messages_in (map s_id (filter (swept (clk 0)) (sessions db))) db) \<and>
            foreign_key_ok (snd (cleanup_expired_sessions clk db)))"
proof -
  let ?ids = "map s_id (filter (swept (clk 0)) (sessions db))"
  from assms have pk: "distinct (map s_id (sessions db))" by (simp add: primary_key_ok_def)
  have f1: "filter (\<lambda>s. s_id s \<notin> set ?ids) (sessions db) =
              filter (\<lambda>s. \<not> swept (clk 0) s) (sessions db)"
    by (rule filter_unswept [OF pk])
  have "delete_sessions_in ?ids (delete_messages_in ?ids db) =
          db\<lparr>sessions := filter (\<lambda>s. s_id s \<notin> set ?ids) (sessions db),
             messages := filter (\<lambda>m. m_session_id m \<notin> set ?ids) (messages db)\<rparr>"
    by (simp add: delete_sessions_in_def delete_messages_in_def del: set_map set_filter)
  then have eq: "delete_sessions_in ?ids (delete_messages_in ?ids db) =
          db\<lparr>sessions := filter (\<lambda>s. \<not> swept (clk 0) s) (sessions db),
             messages := filter (\<lambda>m. m_session_id m \<notin> set ?ids) (messages db)\<rparr>"
    by (simp only: f1)
  have snd_eq: "snd (cleanup_expired_sessions clk db) =
                  delete_sessions_in ?ids (delete_messages_in ?ids db)"
    by (simp add: cleanup_unfold)
  have A: "cleanup_expired_sessions clk db =
           (length (filter (swept (clk 0)) (sessions db)),
            db\<lparr>sessions := filter (\<lambda>s. \<not> swept (clk 0) s) (sessions db),
               messages := filter (\<lambda>m. m_session_id m \<notin> set ?ids) (messages db)\<rparr>)"
    by (simp only: cleanup_unfold eq)
  have C: "foreign_key_ok db \<longrightarrow>
            foreign_key_ok (delete_messages_in ?ids db) \<and>
            foreign_key_ok (snd (cleanup_expired_sessions clk db))"
    unfolding snd_eq
    by (intro impI conjI foreign_key_after_messages foreign_key_after_sessions)
  from A snd_eq C show ?thesis by (intro conjI)
qed

theorem cleanup_witness:
  "primary_key_ok db_two \<and> foreign_key_ok db_two \<and>
   cleanup_expired_sessions (clock_at 200) db_two =
     (1, \<lparr>sessions = [s_two], messages = [msg_two]\<rparr>) \<and>
   foreign_key_ok (snd (cleanup_expired_sessions (clock_at 200) db_two))"
proof -
  have pk: "primary_key_ok db_two" by (simp add: primary_key_ok_def eval_db)
  have fk: "foreign_key_ok db_two" by (simp add: foreign_key_ok_def eval_db)
  note T = cleanup_removes_active_expired [OF pk, of "clock_at 200"]
  from T [THEN conjunct1]
  have run: "cleanup_expired_sessions (clock_at 200) db_two =
     (1, \<lparr>sessions = [s_two], messages = [msg_two]\<rparr>)"
    by (simp add: swept_def eval_db)
  from T [THEN conjunct2, THEN conjunct2] fk
  have "foreign_key_ok (snd (cleanup_expired_sessions (clock_at 200) db_two))" by simp
  with pk fk run show ?thesis by simp
qed

text \<open>
  Claim C5 as stated fails for a session that was deactivated before it expired: its
  expiration (100) has passed at instant 200, and the sweep leaves it in the store.
\<close>

theorem cleanup_keeps_deactivated_expired:
  "sessions (snd (deactivate_session (clock_at 50) db_one ''s1'')) =
     [s_one\<lparr>is_active := False, s_updated_at := 50\<rparr>] \<and>
   expires_at (s_one\<lparr>is_active := False, s_updated_at := 50\<rparr>) = Some 100 \<and>
   cleanup_expired_sessions (clock_at 200) (snd (deactivate_session (clock_at 50) db_one ''s1'')) =
     (0, snd (deactivate_session (clock_at 50) db_one ''s1''))"
  by (simp add: cleanup_expired_sessions_def deactivate_session_def eval_db)

subsection \<open>Resolving or creating a session\<close>

lemma unique_row_filter:
  assumes "distinct (map k rows)" and "s \<in> set rows" and "P s"
  shows "filter (\<lambda>x. k x = k s \<and> P x) rows = [s]"
  using assms
proof (induction rows)
  case Nil
  then show ?case by simp
next
  case (Cons r rows)
  from Cons.prems(1) have notin: "k r \<notin> k ` set rows" and d: "distinct (map k rows)" by simp_all
  show ?case
  proof (cases "s = r")
    case True
    have "\<forall>x \<in> set rows. k x \<noteq> k r"
    proof
      fix x assume "x \<in> set rows"
      then have "k x \<in> k ` set rows" by (rule imageI)
      with notin show "k x \<noteq> k r" by metis
    qed
    with True have "filter (\<lambda>x. k x = k s \<and> P x) rows = []"
      by (simp add: filter_empty_conv)
    with True Cons.prems(3) show ?thesis by simp
  next
    case False
    with Cons.prems(2) have s: "s \<in> set rows" by simp
    then have "k s \<in> k ` set rows" by (rule imageI)
    with notin have "k r \<noteq> k s" by auto
    with Cons.IH [OF d s Cons.prems(3)] show ?thesis by simp
  qed
qed

lemma get_or_create_hit:
  assumes pk: "primary_key_ok db"
      and s: "s \<in> set (sessions db)" "s_id s \<noteq> []" "is_active s" "expires_at s = Some e" "clk 0 < e"
  shows "get_or_create_session clk uuid4 db (Some (s_id s)) =
           (Inr (s\<lparr>last_activity := clk 1,
                   expires_at := Some (clk 2 + session_timeout),
                   s_updated_at := clk 3\<rparr>),
            db\<lparr>sessions :=
                 update_row (s\<lparr>last_activity := clk 1,
                               expires_at := Some (clk 2 + session_timeout),
                               s_updated_at := clk 3\<rparr>)
                            (sessions db)\<rparr>)"
proof -
  from pk have d: "distinct (map s_id (sessions db))" by (simp add: primary_key_ok_def)
  from s have P: "is_active s \<and> expires_after s (clk 0)" by (simp add: expires_after_def)
  have "filter (\<lambda>x. s_id x = s_id s \<and> is_active x \<and> expires_after x (clk 0)) (sessions db) = [s]"
    by (rule unique_row_filter
          [where P = "\<lambda>x. is_active x \<and> expires_after x (clk 0)", OF d s(1) P])
  with s(2) show ?thesis
    by (simp add: get_or_create_session_def scalar_one_or_none_def update_session_activity_def
        Let_def numeral_2_eq_2 numeral_3_eq_3)
qed

lemma insert_new_session_fresh:
  assumes "uuid4 \<notin> set (map s_id (sessions db))"
  shows "insert_new_session clk uuid4 db =
           (Inr (new_session_row clk uuid4),
            db\<lparr>sessions := sessions db @ [new_session_row clk uuid4]\<rparr>)"
  using assms by (simp add: insert_new_session_def new_session_row_def Let_def)

lemma get_or_create_absent:
  assumes "uuid4 \<notin> set (map s_id (sessions db))"
      and "session_id = None \<or> session_id = Some []"
  shows "get_or_create_session clk uuid4 db session_id =
           (Inr (new_session_row clk uuid4),
            db\<lparr>sessions := sessions db @ [new_session_row clk uuid4]\<rparr>)"
  using assms(2) insert_new_session_fresh [OF assms(1), of clk]
  by (cases session_id) (simp_all add: get_or_create_session_def)

lemma get_or_create_miss:
  assumes fresh: "uuid4 \<notin> set (map s_id (sessions db))"
      and sid: "sid \<noteq> []"
      and none: "\<forall>s \<in> set (sessions db). s_id s = sid \<longrightarrow> \<not> (is_active s \<and> expires_after s (clk 0))"
  shows "get_or_create_session clk uuid4 db (Some sid) =
           (Inr (new_session_row (\<lambda>k. clk (Suc k)) uuid4),
            db\<lparr>sessions := sessions db @ [new_session_row (\<lambda>k. clk (Suc k)) uuid4]\<rparr>)"
proof -
  have "filter (\<lambda>s. s_id s = sid \<and> is_active s \<and> expires_after s (clk 0)) (sessions db) = []"
    using none by (simp add: filter_empty_conv)
  with sid insert_new_session_fresh [OF fresh, of "\<lambda>k. clk (Suc k)"] show ?thesis
    by (simp add: get_or_create_session_def scalar_one_or_none_def)
qed

text \<open>
  Claim C7, as amended. On a store with unique session ids, and with a drawn identifier
  that no stored session has, \<open>get_or_create_session\<close> always returns a session. Given
  the id of a session that is active and unexpired at the first clock reading, it returns
  that session, same id, with its expiration set to the third reading plus the window and
  its activity and update timestamps set to the second and fourth readings; the new
  expiration is later than the old one whenever the old one was set from an earlier
  reading. Given no id, the empty id, or an id with no active unexpired session, it
  inserts and returns a new session under the drawn identifier, active, with no messages,
  expiring one window after the reading taken for it.
\<close>

theorem get_or_create_session_resolves:
  assumes "primary_key_ok db" and "uuid4 \<notin> set (map s_id (sessions db))"
  shows "(s \<in> set (sessions db) \<and> s_id s \<noteq> [] \<and> is_active s \<and>
          expires_at s = Some e \<and> clk 0 < e \<longrightarrow>
            get_or_create_session clk uuid4 db (Some (s_id s)) =
              (Inr (s\<lparr>last_activity := clk 1,
                      expires_at := Some (clk 2 + session_timeout),
                      s_updated_at := clk 3\<rparr>),
               db\<lparr>sessions :=
                    update_row (s\<lparr>last_activity := clk 1,
                                  expires_at := Some (clk 2 + session_timeout),
                                  s_updated_at := clk 3\<rparr>)
                               (sessions db)\<rparr>) \<and>
            (\<forall>t0. e = t0 + session_timeout \<and> t0 < clk 2 \<longrightarrow>
               (\<exists>s' e'. fst (get_or_create_session clk uuid4 db (Some (s_id s))) = Inr s' \<and>
                        s_id s' = s_id s \<and> expires_at s' = Some e' \<and> e < e'))) \<and>
         (session_id = None \<or> session_id = Some [] \<longrightarrow>
            get_or_create_session clk uuid4 db session_id =
              (Inr (new_session_row clk uuid4),
               db\<lparr>sessions := sessions db @ [new_session_row clk uuid4]\<rparr>)) \<and>
         (sid \<noteq> [] \<and>
          (\<forall>x \<in> set (sessions db).
             s_id x = sid \<longrightarrow> \<not> (is_active x \<and> expires_after x (clk 0))) \<longrightarrow>
            get_or_create_session clk uuid4 db (Some sid) =
              (Inr (new_session_row (\<lambda>k. clk (Suc k)) uuid4),
               db\<lparr>sessions := sessions db @ [new_session_row (\<lambda>k. clk (Suc k)) uuid4]\<rparr>))"
proof (intro conjI impI)
  assume h: "s \<in> set (sessions db) \<and> s_id s \<noteq> [] \<and> is_active s \<and>
          expires_at s = Some e \<and> clk 0 < e"
  then have s: "s \<in> set (sessions db)" "s_id s \<noteq> []" "is_active s" "expires_at s = Some e"
    "clk 0 < e" by simp_all
  note hit = get_or_create_hit [where clk = clk and ?uuid4.0 = uuid4, OF assms(1) s]
  show "get_or_create_session clk uuid4 db (Some (s_id s)) =
              (Inr (s\<lparr>last_activity := clk 1,
                      expires_at := Some (clk 2 + session_timeout),
                      s_updated_at := clk 3\<rparr>),
               db\<lparr>sessions :=
                    update_row (s\<lparr>last_activity := clk 1,
                                  expires_at := Some (clk 2 + session_timeout),
                                  s_updated_at := clk 3\<rparr>)
                               (sessions db)\<rparr>)"
    by (rule hit)
  show "\<forall>t0. e = t0 + session_timeout \<and> t0 < clk 2 \<longrightarrow>
               (\<exists>s' e'. fst (get_or_create_session clk uuid4 db (Some (s_id s))) = Inr s' \<and>
                        s_id s' = s_id s \<and> expires_at s' = Some e' \<and> e < e')"
    unfolding hit by simp
next
  assume "session_id = None \<or> session_id = Some []"
  then show "get_or_create_session clk uuid4 db session_id =
              (Inr (new_session_row clk uuid4),
               db\<lparr>sessions := sessions db @ [new_session_row clk uuid4]\<rparr>)"
    by (rule get_or_create_absent [OF assms(2)])
next
  assume "sid \<noteq> [] \<and>
          (\<forall>x \<in> set (sessions db).
             s_id x = sid \<longrightarrow> \<not> (is_active x \<and> expires_after x (clk 0)))"
  then show "get_or_create_session clk uuid4 db (Some sid) =
              (Inr (new_session_row (\<lambda>k. clk (Suc k)) uuid4),
               db\<lparr>sessions := sessions db @ [new_session_row (\<lambda>k. clk (Suc k)) uuid4]\<rparr>)"
    by (intro get_or_create_miss [OF assms(2)]) simp_all
qed

theorem get_or_create_session_witness:
  "primary_key_ok db_one \<and> ''u1'' \<notin> set (map s_id (sessions db_one)) \<and>
   get_or_create_session (clock_at 50) ''u1'' db_one (Some ''s1'') =
     (Inr (s_one\<lparr>last_activity := 50, expires_at := Some (50 + session_timeout),
                  s_updated_at := 50\<rparr>),
      \<lparr>sessions = [s_one\<lparr>last_activity := 50, expires_at := Some (50 + session_timeout),
                            s_updated_at := 50\<rparr>],
       messages = [msg_one]\<rparr>) \<and>
   (100 :: int) < 50 + session_timeout \<and>
   get_or_create_session (clock_at 200) ''u1'' db_one None =
     (Inr (new_session_row (clock_at 200) ''u1''),
      \<lparr>sessions = [s_one, new_session_row (clock_at 200) ''u1''], messages = [msg_one]\<rparr>) \<and>
   fst (get_or_create_session (clock_at 200) ''u1'' db_one (Some ''s1'')) =
     Inr (new_session_row (clock_at 200) ''u1'') \<and>
   expires_at (new_session_row (clock_at 200) ''u1'') = Some (200 + session_timeout)"
proof -
  have pk: "primary_key_ok db_one" by (simp add: primary_key_ok_def eval_db)
  have fresh: "''u1'' \<notin> set (map s_id (sessions db_one))" by (simp add: eval_db)
  note T = get_or_create_session_resolves [OF pk fresh]
  have hit: "s_one \<in> set (sessions db_one) \<and> s_id s_one \<noteq> [] \<and> is_active s_one \<and>
          expires_at s_one = Some 100 \<and> clock_at 50 0 < 100"
    by (simp add: eval_db)
  from T [where s = s_one and e = 100 and clk = "clock_at 50", THEN conjunct1, rule_format, OF hit,
          THEN conjunct1]
  have a: "get_or_create_session (clock_at 50) ''u1'' db_one (Some ''s1'') =
     (Inr (s_one\<lparr>last_activity := 50, expires_at := Some (50 + session_timeout),
                  s_updated_at := 50\<rparr>),
      \<lparr>sessions = [s_one\<lparr>last_activity := 50, expires_at := Some (50 + session_timeout),
                            s_updated_at := 50\<rparr>],
       messages = [msg_one]\<rparr>)"
    by (simp add: eval_db)
  from T [where session_id = None and clk = "clock_at 200", THEN conjunct2, THEN conjunct1]
  have b: "get_or_create_session (clock_at 200) ''u1'' db_one None =
     (Inr (new_session_row (clock_at 200) ''u1''),
      \<lparr>sessions = [s_one, new_session_row (clock_at 200) ''u1''], messages = [msg_one]\<rparr>)"
    by (simp add: db_one_def)
  have miss: "''s1'' \<noteq> [] \<and>
          (\<forall>x \<in> set (sessions db_one).
             s_id x = ''s1'' \<longrightarrow> \<not> (is_active x \<and> expires_after x (clock_at 200 0)))"
    by (simp add: eval_db)
  from T [where sid = "''s1''" and clk = "clock_at 200", THEN conjunct2, THEN conjunct2,
          rule_format, OF miss]
  have c: "fst (get_or_create_session (clock_at 200) ''u1'' db_one (Some ''s1'')) =
     Inr (new_session_row (clock_at 200) ''u1'')"
    by (simp add: new_session_row_def clock_at_def)
  have d: "(100 :: int) < 50 + session_timeout" by (simp add: session_timeout_def)
  have e: "expires_at (new_session_row (clock_at 200) ''u1'') = Some (200 + session_timeout)"
    by (simp add: new_session_row_def clock_at_def)
  from pk fresh a b c d e show ?thesis by (intro conjI)
qed

text \<open>
  Claim C7 as stated fails when the wall clock does not advance between two calls: a
  session created at reading 1000 and resolved again at reading 900 is unexpired, and
  comes back with an earlier expiration than it had.
\<close>

theorem get_or_create_session_clock_set_back:
  "get_or_create_session (clock_at 1000) ''s1'' db_empty None =
     (Inr (new_session_row (clock_at 1000) ''s1''),
      \<lparr>sessions = [new_session_row (clock_at 1000) ''s1''], messages = []\<rparr>) \<and>
   is_active (new_session_row (clock_at 1000) ''s1'') \<and>
   expires_at (new_session_row (clock_at 1000) ''s1'') = Some (1000 + session_timeout) \<and>
   (900 :: int) < 1000 + session_timeout \<and>
   fst (get_or_create_session (clock_at 900) ''u2''
          \<lparr>sessions = [new_session_row (clock_at 1000) ''s1''], messages = []\<rparr> (Some ''s1'')) =
     Inr ((new_session_row (clock_at 1000) ''s1'')
            \<lparr>last_activity := 900, expires_at := Some (900 + session_timeout),
              s_updated_at := 900\<rparr>) \<and>
   (900 :: int) + session_timeout < 1000 + session_timeout"
  by (simp add: get_or_create_session_def insert_new_session_def update_session_activity_def
      new_session_row_def session_timeout_def Let_def eval_db)

subsection \<open>Ingestion keys\<close>

lemma fold_upsert:
  "fold (\<lambda>(i, v, m) ix. ix(i \<mapsto> (v, m))) recs idx k =
     (case map_of (rev recs) k of None \<Rightarrow> idx k | Some vm \<Rightarrow> Some vm)"
proof (induction recs arbitrary: idx)
  case Nil
  then show ?case by simp
next
  case (Cons r recs)
  let ?f = "\<lambda>(i, v, m) ix. ix(i \<mapsto> (v, m))"
  obtain i v m where r: "r = (i, v, m)" by (cases r)
  have "fold ?f (r # recs) idx k = fold ?f recs (idx(i \<mapsto> (v, m))) k"
    by (simp only: fold_Cons comp_apply r prod.case)
  also have "\<dots> = (case map_of (rev recs) k of
                      None \<Rightarrow> (idx(i \<mapsto> (v, m))) k | Some vm \<Rightarrow> Some vm)"
    by (rule Cons.IH)
  also have "\<dots> = (case map_of (rev (r # recs)) k of None \<Rightarrow> idx k | Some vm \<Rightarrow> Some vm)"
    by (simp add: r map_add_def split: option.split)
  finally show ?case .
qed

lemma upsert_faqs_apply:
  "upsert_faqs idx ids vectors metadatas k =
     (case map_of (rev (zip ids (zip vectors metadatas))) k of
        None \<Rightarrow> idx k | Some vm \<Rightarrow> Some vm)"
  by (simp only: upsert_faqs_def fold_upsert)

lemma map_of_rev_last_wins:
  assumes "i < length recs"
      and "\<forall>j. i < j \<and> j < length recs \<longrightarrow> fst (recs ! j) \<noteq> fst (recs ! i)"
  shows "map_of (rev recs) (fst (recs ! i)) = Some (snd (recs ! i))"
  using assms
proof (induction recs rule: rev_induct)
  case Nil
  then show ?case by simp
next
  case (snoc r recs)
  show ?case
  proof (cases "i = length recs")
    case True
    then show ?thesis by (cases r) simp
  next
    case False
    with snoc.prems(1) have i: "i < length recs" by simp
    have "i < length recs \<and> length recs < length (recs @ [r])" using i by simp
    with snoc.prems(2) have "fst ((recs @ [r]) ! length recs) \<noteq> fst ((recs @ [r]) ! i)"
      by blast
    with i have ne: "fst r \<noteq> fst (recs ! i)" by (simp add: nth_append)
    have "\<forall>j. i < j \<and> j < length recs \<longrightarrow> fst (recs ! j) \<noteq> fst (recs ! i)"
    proof (intro allI impI)
      fix j assume j: "i < j \<and> j < length recs"
      then have "i < j \<and> j < length (recs @ [r])" by simp
      with snoc.prems(2) have "fst ((recs @ [r]) ! j) \<noteq> fst ((recs @ [r]) ! i)" by blast
      with j i show "fst (recs ! j) \<noteq> fst (recs ! i)" by (simp add: nth_append)
    qed
    from snoc.IH [OF i this] ne i show ?thesis
      by (cases r) (simp add: nth_append)
  qed
qed

lemma upsert_faqs_dom:
  assumes "length vectors = length ids" and "length metadatas = length ids"
  shows "dom (upsert_faqs idx ids vectors metadatas) = dom idx \<union> set ids"
proof -
  let ?recs = "zip ids (zip vectors metadatas)"
  have fst_recs: "map fst ?recs = ids" using assms by simp
  have "dom (map_of (rev ?recs)) = fst ` set (rev ?recs)" by (rule dom_map_of_conv_image_fst)
  also have "\<dots> = set (map fst ?recs)" by simp
  also have "\<dots> = set ids" by (simp only: fst_recs)
  finally have d: "dom (map_of (rev ?recs)) = set ids" .
  have "\<And>k. k \<in> dom (upsert_faqs idx ids vectors metadatas) \<longleftrightarrow>
          k \<in> dom idx \<union> dom (map_of (rev ?recs))"
    by (simp add: upsert_faqs_apply dom_def split: option.split)
  then show ?thesis unfolding d by blast
qed

lemma upsert_faqs_last_wins:
  assumes len: "length vectors = length ids" "length metadatas = length ids"
      and i: "i < length ids"
      and later: "\<forall>j. i < j \<and> j < length ids \<longrightarrow> ids ! j \<noteq> ids ! i"
  shows "upsert_faqs idx ids vectors metadatas (ids ! i) = Some (vectors ! i, metadatas ! i)"
proof -
  let ?recs = "zip ids (zip vectors metadatas)"
  have n: "length ?recs = length ids" using len by simp
  have nth: "\<And>j. j < length ids \<Longrightarrow> ?recs ! j = (ids ! j, vectors ! j, metadatas ! j)"
    using len by simp
  have "\<forall>j. i < j \<and> j < length ?recs \<longrightarrow> fst (?recs ! j) \<noteq> fst (?recs ! i)"
  proof (intro allI impI)
    fix j assume j: "i < j \<and> j < length ?recs"
    with n have "i < j \<and> j < length ids" by simp
    with later have "ids ! j \<noteq> ids ! i" by blast
    with j n i show "fst (?recs ! j) \<noteq> fst (?recs ! i)" by (simp add: nth)
  qed
  moreover have "i < length ?recs" using i n by simp
  ultimately have "map_of (rev ?recs) (fst (?recs ! i)) = Some (snd (?recs ! i))"
    by (intro map_of_rev_last_wins)
  then have "map_of (rev ?recs) (ids ! i) = Some (vectors ! i, metadatas ! i)"
    by (simp only: nth [OF i] fst_conv snd_conv)
  then show ?thesis by (simp add: upsert_faqs_apply)
qed

text \<open>
  Claim C9. The key of an ingested item is \<open>uuid5\<close> of its question and of nothing else:
  two items with the same question, in one batch or in two, get the same key. A batch
  that is embedded adds no key but those of its items, and under each key the index
  holds the record of the last item of the batch that has the key: an identical question
  ingested again replaces the stored entry.
\<close>

theorem ingest_faq_keys_by_question:
  assumes "items \<noteq> []"
      and "encode (map (\<lambda>(q, a). q @ [NL] @ a)
                       (zip (map question items) (map item_answer items))) = Some vectors"
      and "length vectors = length items"
  shows "ingest_ids uuid5 items = map (\<lambda>it. uuid5 (question it)) items \<and>
         (\<forall>i j. i < length items \<and> j < length items' \<and>
                question (items ! i) = question (items' ! j) \<longrightarrow>
                  ingest_ids uuid5 items ! i = ingest_ids uuid5 items' ! j) \<and>
         fst (ingest_faq uuid5 encode idx items) = Inr (length items) \<and>
         dom (snd (ingest_faq uuid5 encode idx items)) = dom idx \<union> set (ingest_ids uuid5 items) \<and>
         (\<forall>i. i < length items \<and>
              (\<forall>j. i < j \<and> j < length items \<longrightarrow>
                     ingest_ids uuid5 items ! j \<noteq> ingest_ids uuid5 items ! i) \<longrightarrow>
                snd (ingest_faq uuid5 encode idx items) (ingest_ids uuid5 items ! i) =
                  Some (vectors ! i,
                        faq_metadata (question (items ! i)) (item_answer (items ! i))))"
proof -
  let ?ids = "ingest_ids uuid5 items"
  let ?metas = "map (\<lambda>(q, a). faq_metadata q a)
                    (zip (map question items) (map item_answer items))"
  have ids: "?ids = map (\<lambda>it. uuid5 (question it)) items"
    by (simp add: ingest_ids_def)
  have len_ids: "length ?ids = length items" by (simp add: ingest_ids_def)
  have len_metas: "length ?metas = length items" by simp
  have meta_nth: "\<And>i. i < length items \<Longrightarrow>
      ?metas ! i = faq_metadata (question (items ! i)) (item_answer (items ! i))"
    by simp
  have run: "ingest_faq uuid5 encode idx items =
               (Inr (length items), upsert_faqs idx ?ids vectors ?metas)"
    using assms(1,2) by (simp add: ingest_faq_def Let_def len_ids)
  have same: "\<forall>i j. i < length items \<and> j < length items' \<and>
                question (items ! i) = question (items' ! j) \<longrightarrow>
                  ingest_ids uuid5 items ! i = ingest_ids uuid5 items' ! j"
    by (simp add: ingest_ids_def)
  have d: "dom (snd (ingest_faq uuid5 encode idx items)) = dom idx \<union> set ?ids"
    unfolding run snd_conv
    by (rule upsert_faqs_dom) (simp_all only: len_ids len_metas assms(3))
  have last: "\<forall>i. i < length items \<and>
              (\<forall>j. i < j \<and> j < length items \<longrightarrow> ?ids ! j \<noteq> ?ids ! i) \<longrightarrow>
                snd (ingest_faq uuid5 encode idx items) (?ids ! i) =
                  Some (vectors ! i,
                        faq_metadata (question (items ! i)) (item_answer (items ! i)))"
  proof (intro allI impI)
    fix i
    assume h: "i < length items \<and>
               (\<forall>j. i < j \<and> j < length items \<longrightarrow> ?ids ! j \<noteq> ?ids ! i)"
    then have i: "i < length ?ids"
      and later: "\<forall>j. i < j \<and> j < length ?ids \<longrightarrow> ?ids ! j \<noteq> ?ids ! i"
      by (simp_all add: len_ids)
    have l1: "length vectors = length ?ids" by (simp only: len_ids assms(3))
    have l2: "length ?metas = length ?ids" by (simp only: len_ids len_metas)
    from upsert_faqs_last_wins [OF l1 l2 i later, of idx]
    have "upsert_faqs idx ?ids vectors ?metas (?ids ! i) = Some (vectors ! i, ?metas ! i)" .
    with h show "snd (ingest_faq uuid5 encode idx items) (?ids ! i) =
                  Some (vectors ! i,
                        faq_metadata (question (items ! i)) (item_answer (items ! i)))"
      unfolding run snd_conv by (simp only: meta_nth)
  qed
  from ids same run d last show ?thesis by (simp only: fst_conv simp_thms)
qed

theorem ingest_faq_witness:
  "batch_twice \<noteq> [] \<and>
   encode_lengths (map (\<lambda>(q, a). q @ [NL] @ a)
                       (zip (map question batch_twice) (map item_answer batch_twice)))
     = Some [[13], [13]] \<and>
   ingest_ids key_of batch_twice = [''faq:hours?'', ''faq:hours?''] \<and>
   fst (ingest_faq key_of encode_lengths Map.empty batch_twice) = Inr 2 \<and>
   dom (snd (ingest_faq key_of encode_lengths Map.empty batch_twice)) = {''faq:hours?''} \<and>
   snd (ingest_faq key_of encode_lengths Map.empty batch_twice) ''faq:hours?'' =
     Some ([13], faq_metadata ''hours?'' ''8 to 6'')"
proof -
  have ne: "batch_twice \<noteq> []" by (simp add: batch_twice_def)
  have enc: "encode_lengths (map (\<lambda>(q, a). q @ [NL] @ a)
                       (zip (map question batch_twice) (map item_answer batch_twice)))
     = Some [[13], [13]]"
    by (simp add: encode_lengths_def batch_twice_def)
  have len: "length [[13 :: real], [13]] = length batch_twice" by (simp add: batch_twice_def)
  note T = ingest_faq_keys_by_question
             [where ?uuid5.0 = key_of and idx = Map.empty and items' = batch_twice and items = batch_twice
                and encode = encode_lengths and vectors = "[[13], [13]]", OF ne enc len]
  have ids: "ingest_ids key_of batch_twice = [''faq:hours?'', ''faq:hours?'']"
    using T [THEN conjunct1] by (simp add: batch_twice_def key_of_def)
  have n: "fst (ingest_faq key_of encode_lengths Map.empty batch_twice) = Inr 2"
    using T [THEN conjunct2, THEN conjunct2, THEN conjunct1] by (simp add: batch_twice_def)
  have d: "dom (snd (ingest_faq key_of encode_lengths Map.empty batch_twice)) = {''faq:hours?''}"
    using T [THEN conjunct2, THEN conjunct2, THEN conjunct2, THEN conjunct1]
    by (simp add: ids)
  have last: "1 < length batch_twice \<and>
              (\<forall>j. 1 < j \<and> j < length batch_twice \<longrightarrow>
                 ingest_ids key_of batch_twice ! j \<noteq> ingest_ids key_of batch_twice ! 1)"
  proof (intro conjI allI impI)
    have l2: "length batch_twice = 2" by (simp add: batch_twice_def)
    show "1 < length batch_twice" unfolding l2 by simp
    fix j assume "1 < j \<and> j < length batch_twice"
    then have False unfolding l2 by arith
    then show "ingest_ids key_of batch_twice ! j \<noteq> ingest_ids key_of batch_twice ! 1" ..
  qed
  from T [THEN conjunct2, THEN conjunct2, THEN conjunct2, THEN conjunct2, rule_format, OF last]
  have w: "snd (ingest_faq key_of encode_lengths Map.empty batch_twice) ''faq:hours?'' =
     Some ([13], faq_metadata ''hours?'' ''8 to 6'')"
    by (simp add: ids) (simp add: batch_twice_def)
  from ne enc ids n d w show ?thesis by (intro conjI)
qed

end
